theory Spec2Isabelle
  imports Main "HOL-Library.Multiset"
begin

section \<open>Trace events and intervals\<close>

text \<open>
  One record of \<^verbatim>\<open>traceData.traceEvents\<close>. Only the fields the two converters read are
  kept. Timestamps and the three identifiers are JSON numbers of the trace (microseconds,
  process id, thread id, and the field \<^verbatim>\<open>id\<close>, here \<open>corrId\<close>) and are modelled as integers; \<open>detail\<close> is
  \<^verbatim>\<open>e.args.detail\<close>, \<open>None\<close> when \<^verbatim>\<open>args\<close> or \<^verbatim>\<open>detail\<close> is missing.
\<close>

record event =
  ph :: string
  cat :: string
  name :: string
  pid :: int
  tid :: int
  corrId :: int
  ts :: int
  detail :: "string option"

record interval =
  filePath :: string
  startTime :: int
  endTime :: int
  duration :: int

text \<open>
  The template string \<^verbatim>\<open>`${e.pid}-${e.tid}-${e.id}`\<close> used as the key of \<^verbatim>\<open>endMap\<close>. On
  integers the decimal rendering is injective, so the key is the triple itself.
\<close>

type_synonym key = "int \<times> int \<times> int"

definition keyOf :: "event \<Rightarrow> key" where
  "keyOf e = (pid e, tid e, corrId e)"

definition isSource :: "event \<Rightarrow> bool" where
  "isSource e = (cat e = ''Source'' \<and> name e = ''Source'')"

text \<open>\<^verbatim>\<open>e.ph === 'b' && e.args && e.args.detail\<close>: the detail must be truthy, that is a
  non-empty string.\<close>

definition isBegin :: "event \<Rightarrow> bool" where
  "isBegin e = (ph e = ''b'' \<and> (case detail e of None \<Rightarrow> False | Some d \<Rightarrow> d \<noteq> []))"

definition isEnd :: "event \<Rightarrow> bool" where
  "isEnd e = (ph e = ''e'')"

definition detailOf :: "event \<Rightarrow> string" where
  "detailOf e = (case detail e of None \<Rightarrow> [] | Some d \<Rightarrow> d)"

section \<open>The event matcher\<close>

text \<open>
  \<^verbatim>\<open>endMap\<close>: a \<^verbatim>\<open>Map\<close> from key to the array of end events with that key, filled in trace
  order (\<^verbatim>\<open>endMap.get(key).push(endEvent)\<close>).
\<close>

definition pool :: "(key \<rightharpoonup> event list) \<Rightarrow> key \<Rightarrow> event list" where
  "pool m k = (case m k of None \<Rightarrow> [] | Some es \<Rightarrow> es)"

fun indexEnds :: "(key \<rightharpoonup> event list) \<Rightarrow> event list \<Rightarrow> (key \<rightharpoonup> event list)" where
  "indexEnds m [] = m"
| "indexEnds m (e # es) = indexEnds (m(keyOf e \<mapsto> pool m (keyOf e) @ [e])) es"

text \<open>
  \<^verbatim>\<open>endCandidates.find(p)\<close> followed by \<^verbatim>\<open>indexOf\<close> and \<^verbatim>\<open>splice(idx, 1)\<close>: \<^verbatim>\<open>find\<close> returns the
  first element in array order that satisfies the predicate, \<^verbatim>\<open>indexOf\<close> compares object
  identity and so finds the position where \<^verbatim>\<open>find\<close> stopped, and \<^verbatim>\<open>splice\<close> deletes that one
  position.
\<close>

fun findIndex :: "('a \<Rightarrow> bool) \<Rightarrow> 'a list \<Rightarrow> nat option" where
  "findIndex p [] = None"
| "findIndex p (x # xs) =
     (if p x then Some 0 else map_option Suc (findIndex p xs))"

fun splice1 :: "nat \<Rightarrow> 'a list \<Rightarrow> 'a list" where
  "splice1 i [] = []"
| "splice1 0 (x # xs) = xs"
| "splice1 (Suc i) (x # xs) = x # splice1 i xs"

text \<open>The loop over \<^verbatim>\<open>beginEvents\<close>; the map of pools is the state that is threaded.\<close>

fun matchBegins :: "(key \<rightharpoonup> event list) \<Rightarrow> event list \<Rightarrow> interval list" where
  "matchBegins m [] = []"
| "matchBegins m (b # bs) =
     (let endCandidates = pool m (keyOf b) in
      case findIndex (\<lambda>e. ts e > ts b) endCandidates of
        None \<Rightarrow> matchBegins m bs
      | Some idx \<Rightarrow>
          (let matchingEnd = endCandidates ! idx in
           \<lparr>filePath = detailOf b, startTime = ts b, endTime = ts matchingEnd,
            duration = ts matchingEnd - ts b\<rparr>
           # matchBegins (m(keyOf b \<mapsto> splice1 idx endCandidates)) bs))"

definition matchEvents :: "event list \<Rightarrow> interval list" where
  "matchEvents events =
     (let sourceEvents = filter isSource events;
          beginEvents = filter isBegin sourceEvents;
          endEvents = filter isEnd sourceEvents
      in matchBegins (indexEnds Map.empty endEvents) beginEvents)"

text \<open>\<^verbatim>\<open>extractSourceMarkers\<close> of the dashboard converter is the matcher alone.\<close>

definition extractSourceMarkers_dashboard :: "event list \<Rightarrow> interval list" where
  "extractSourceMarkers_dashboard events = matchEvents events"

subsection \<open>Facts about the matcher\<close>

lemma findIndex_Some:
  "findIndex p xs = Some i \<Longrightarrow> i < length xs \<and> p (xs ! i) \<and> (\<forall>j<i. \<not> p (xs ! j))"
proof (induction xs arbitrary: i)
  case Nil
  then show ?case by simp
next
  case (Cons x xs)
  show ?case
  proof (cases "p x")
    case True
    with Cons.prems show ?thesis by simp
  next
    case False
    with Cons.prems obtain k where k: "findIndex p xs = Some k" "i = Suc k"
      by auto
    from Cons.IH[OF k(1)] False k(2) show ?thesis
      by (auto simp: less_Suc_eq_0_disj)
  qed
qed

lemma findIndex_None: "findIndex p xs = None \<longleftrightarrow> (\<forall>x\<in>set xs. \<not> p x)"
  by (induction xs) auto

lemma matchBegins_positive:
  "\<forall>i\<in>set (matchBegins m bs).
     startTime i < endTime i \<and> duration i = endTime i - startTime i"
proof (induction bs arbitrary: m)
  case Nil
  show ?case by simp
next
  case (Cons b bs)
  show ?case
  proof (cases "findIndex (\<lambda>e. ts e > ts b) (pool m (keyOf b))")
    case None
    with Cons.IH[of m] show ?thesis by simp
  next
    case (Some idx)
    let ?end = "pool m (keyOf b) ! idx"
    let ?m' = "m(keyOf b \<mapsto> splice1 idx (pool m (keyOf b)))"
    from findIndex_Some[OF Some] have lt: "ts b < ts ?end"
      by simp
    have eq: "matchBegins m (b # bs) =
        \<lparr>filePath = detailOf b, startTime = ts b, endTime = ts ?end,
         duration = ts ?end - ts b\<rparr> # matchBegins ?m' bs"
      using Some by (simp add: Let_def)
    have rest: "\<forall>i\<in>set (matchBegins ?m' bs).
        startTime i < endTime i \<and> duration i = endTime i - startTime i"
      by (rule Cons.IH)
    show ?thesis
      unfolding eq using lt rest by (simp del: fun_upd_apply)
  qed
qed

lemma matchEvents_positive:
  "i \<in> set (matchEvents events) \<Longrightarrow>
     startTime i < endTime i \<and> duration i = endTime i - startTime i"
  using matchBegins_positive unfolding matchEvents_def Let_def by blast

definition mkEvent :: "string \<Rightarrow> int \<Rightarrow> int \<Rightarrow> string option \<Rightarrow> event" where
  "mkEvent p i t d =
     \<lparr>ph = p, cat = ''Source'', name = ''Source'', pid = 1, tid = 1, corrId = i, ts = t,
      detail = d\<rparr>"

text \<open>A begin event and its end event under one key.\<close>

definition mkPair :: "int \<Rightarrow> int \<Rightarrow> int \<Rightarrow> string \<Rightarrow> event list" where
  "mkPair i t0 t1 f = [mkEvent ''b'' i t0 (Some f), mkEvent ''e'' i t1 None]"

definition scenario1 :: "event list" where
  "scenario1 = mkPair 0 1000 2000 ''a.h''"

lemma scenario1_intervals:
  "matchEvents scenario1 =
     [\<lparr>filePath = ''a.h'', startTime = 1000, endTime = 2000, duration = 1000\<rparr>]"
  by (simp add: matchEvents_def scenario1_def mkPair_def mkEvent_def isSource_def
      isBegin_def isEnd_def keyOf_def pool_def detailOf_def)

text \<open>
  Claim C10. Every interval the event matcher emits ends strictly after it starts, so its
  raw duration (end minus start) is strictly positive; this holds for every list of
  events, whatever the correlation ids are.
\<close>

theorem matcher_intervals_positive:
  "\<forall>i\<in>set (matchEvents events). startTime i < endTime i \<and> 0 < duration i"
proof
  fix i
  assume "i \<in> set (matchEvents events)"
  from matchEvents_positive[OF this]
  show "startTime i < endTime i \<and> 0 < duration i" by simp
qed

theorem matcher_intervals_positive_witness:
  "matchEvents scenario1 \<noteq> [] \<and>
   startTime (hd (matchEvents scenario1)) < endTime (hd (matchEvents scenario1)) \<and>
   0 < duration (hd (matchEvents scenario1))"
  using matcher_intervals_positive[of scenario1]
  by (simp add: scenario1_intervals)

subsection \<open>What one step of the matching loop does\<close>

lemma pool_indexEnds:
  "pool (indexEnds m es) k = pool m k @ filter (\<lambda>e. keyOf e = k) es"
proof (induction es arbitrary: m)
  case Nil
  show ?case by simp
next
  case (Cons e es)
  show ?case
    unfolding indexEnds.simps Cons.IH by (simp add: pool_def)
qed

lemma pool_indexEnds_empty:
  "pool (indexEnds Map.empty es) k = filter (\<lambda>e. keyOf e = k) es"
  by (simp add: pool_indexEnds) (simp add: pool_def)

lemma matchBegins_no_candidate:
  assumes "\<forall>e\<in>set (pool m (keyOf b)). \<not> ts b < ts e"
  shows "matchBegins m (b # bs) = matchBegins m bs"
proof -
  from assms have "findIndex (\<lambda>e. ts e > ts b) (pool m (keyOf b)) = None"
    by (simp add: findIndex_None)
  then show ?thesis by simp
qed

lemma matchBegins_first_candidate:
  assumes "e \<in> set (pool m (keyOf b))" and "ts b < ts e"
  shows "\<exists>idx. idx < length (pool m (keyOf b)) \<and>
           ts b < ts (pool m (keyOf b) ! idx) \<and>
           (\<forall>j<idx. \<not> ts b < ts (pool m (keyOf b) ! j)) \<and>
           matchBegins m (b # bs) =
             \<lparr>filePath = detailOf b, startTime = ts b,
              endTime = ts (pool m (keyOf b) ! idx),
              duration = ts (pool m (keyOf b) ! idx) - ts b\<rparr>
             # matchBegins (m(keyOf b \<mapsto> splice1 idx (pool m (keyOf b)))) bs"
proof -
  from assms have "findIndex (\<lambda>e. ts e > ts b) (pool m (keyOf b)) \<noteq> None"
    by (auto simp: findIndex_None)
  then obtain idx where idx: "findIndex (\<lambda>e. ts e > ts b) (pool m (keyOf b)) = Some idx"
    by blast
  from findIndex_Some[OF idx] idx show ?thesis
    by (intro exI[of _ idx]) (simp add: Let_def)
qed

lemma splice1_length: "i < length xs \<Longrightarrow> Suc (length (splice1 i xs)) = length xs"
  by (induction i xs rule: splice1.induct) auto

lemma splice1_take_drop: "splice1 i xs = take i xs @ drop (Suc i) xs"
  by (induction i xs rule: splice1.induct) auto

text \<open>
  When the pool lists its end events in non-decreasing timestamp order, the first
  candidate in array order is also the one with the smallest timestamp.
\<close>

lemma first_candidate_earliest_if_sorted:
  assumes "sorted (map ts es)" and "findIndex (\<lambda>e. ts e > t) es = Some idx"
    and "e \<in> set es" and "t < ts e"
  shows "ts (es ! idx) \<le> ts e"
proof -
  from assms(3) obtain j where j: "j < length es" "es ! j = e"
    by (auto simp: in_set_conv_nth)
  from findIndex_Some[OF assms(2)]
  have idx: "idx < length es" "\<forall>k<idx. \<not> t < ts (es ! k)" by simp_all
  from idx(2) j(2) assms(4) have "idx \<le> j" by (meson not_le_imp_less)
  with assms(1) j(1) have "map ts es ! idx \<le> map ts es ! j"
    by (simp add: sorted_iff_nth_mono)
  with idx(1) j show ?thesis by simp
qed

lemma splice1_set: "set (splice1 i xs) \<subseteq> set xs"
  by (induction i xs rule: splice1.induct) auto

lemma splice1_sorted: "sorted (map f xs) \<Longrightarrow> sorted (map f (splice1 i xs))"
proof (induction i xs rule: splice1.induct)
  case (1 i)
  show ?case by simp
next
  case (2 x xs)
  then show ?case by simp
next
  case (3 i x xs)
  from "3.prems" have "sorted (map f xs)" and le: "\<forall>y\<in>set xs. f x \<le> f y"
    by simp_all
  with "3.IH" have "sorted (map f (splice1 i xs))" by simp
  moreover from le splice1_set[of i xs] have "\<forall>y\<in>set (splice1 i xs). f x \<le> f y"
    by blast
  ultimately show ?case by simp
qed

text \<open>
  One step of the loop on a pool in non-decreasing timestamp order: the end event that is
  matched has the least timestamp among the candidates of the pool, and the pool stays in
  order.
\<close>

lemma matchBegins_earliest_if_sorted:
  assumes "sorted (map ts (pool m (keyOf b)))"
    and "findIndex (\<lambda>e. ts e > ts b) (pool m (keyOf b)) = Some idx"
  shows "matchBegins m (b # bs) =
           \<lparr>filePath = detailOf b, startTime = ts b,
            endTime = ts (pool m (keyOf b) ! idx),
            duration = ts (pool m (keyOf b) ! idx) - ts b\<rparr>
           # matchBegins (m(keyOf b \<mapsto> splice1 idx (pool m (keyOf b)))) bs"
    and "\<forall>e\<in>set (pool m (keyOf b)). ts b < ts e \<longrightarrow> ts (pool m (keyOf b) ! idx) \<le> ts e"
    and "sorted (map ts (splice1 idx (pool m (keyOf b))))"
proof -
  show "matchBegins m (b # bs) =
           \<lparr>filePath = detailOf b, startTime = ts b,
            endTime = ts (pool m (keyOf b) ! idx),
            duration = ts (pool m (keyOf b) ! idx) - ts b\<rparr>
           # matchBegins (m(keyOf b \<mapsto> splice1 idx (pool m (keyOf b)))) bs"
    using assms(2) by (simp add: Let_def)
  show "\<forall>e\<in>set (pool m (keyOf b)). ts b < ts e \<longrightarrow> ts (pool m (keyOf b) ! idx) \<le> ts e"
    using first_candidate_earliest_if_sorted[OF assms] by blast
  show "sorted (map ts (splice1 idx (pool m (keyOf b))))"
    by (rule splice1_sorted[OF assms(1)])
qed

subsection \<open>End events out of timestamp order\<close>

text \<open>
  A trace with one begin event at time 0 and two end events under the same key, listed
  with timestamps 10 and then 5.
\<close>

definition trace_unordered :: "event list" where
  "trace_unordered =
     [mkEvent ''b'' 0 0 (Some ''a.h''), mkEvent ''e'' 0 10 None, mkEvent ''e'' 0 5 None]"

text \<open>
  Claim C1. The matcher is claimed to pair every begin-marker with the earliest
  not-yet-consumed end-marker of its key whose timestamp is strictly greater. On
  \<open>trace_unordered\<close> the code emits the interval from 0 to 10 although the end event at
  time 5 has the same key, is unconsumed and is later than the begin: \<^verbatim>\<open>find\<close> takes the
  first candidate in array order, not the one closest in time.
\<close>

theorem matcher_takes_first_in_array_order:
  "matchEvents trace_unordered =
     [\<lparr>filePath = ''a.h'', startTime = 0, endTime = 10, duration = 10\<rparr>] \<and>
   (\<exists>e\<in>set trace_unordered. isSource e \<and> isEnd e \<and>
      keyOf e = keyOf (hd trace_unordered) \<and> ts (hd trace_unordered) < ts e \<and> ts e < 10)"
  by (simp add: matchEvents_def trace_unordered_def mkEvent_def isSource_def isBegin_def
      isEnd_def keyOf_def pool_def detailOf_def)

section \<open>Include hierarchy and self time of the profiler converter\<close>

text \<open>
  The second half of \<^verbatim>\<open>extractSourceMarkers\<close> in \<^verbatim>\<open>clang-trace-to-profiler.js\<close>. The
  intervals are JavaScript objects and \<^verbatim>\<open>other !== interval\<close> compares their identity, so
  two intervals with equal fields are still different; the model therefore names an
  interval by its position in the array \<^verbatim>\<open>intervals\<close>.
\<close>

record marker = interval +
  stack :: "string list"
  compilationUnit :: "string option"

text \<open>\<^verbatim>\<open>a.startTime <= b.startTime && a.endTime >= b.endTime\<close>\<close>

definition encloses :: "interval \<Rightarrow> interval \<Rightarrow> bool" where
  "encloses a b = (startTime a \<le> startTime b \<and> endTime a \<ge> endTime b)"

text \<open>The loop that pushes every other interval containing interval \<open>i\<close> onto \<^verbatim>\<open>stack\<close>.\<close>

fun stackLoop :: "interval list \<Rightarrow> nat \<Rightarrow> nat list \<Rightarrow> nat list \<Rightarrow> nat list" where
  "stackLoop xs i [] stk = stk"
| "stackLoop xs i (other # rest) stk =
     stackLoop xs i rest
       (if other \<noteq> i \<and> encloses (xs ! other) (xs ! i) then stk @ [other] else stk)"

text \<open>
  \<^verbatim>\<open>stack.sort((a, b) => a.startTime - b.startTime)\<close> is a stable sort on the start time;
  then \<^verbatim>\<open>stack.push(interval)\<close>.
\<close>

definition ancestorChain :: "interval list \<Rightarrow> nat \<Rightarrow> nat list" where
  "ancestorChain xs i =
     sort_key (\<lambda>j. startTime (xs ! j)) (stackLoop xs i [0..<length xs] []) @ [i]"

text \<open>The innermost loop: it leaves with \<^verbatim>\<open>isDirect = false\<close> at the first intermediate
  interval.\<close>

fun isDirectLoop :: "interval list \<Rightarrow> nat \<Rightarrow> nat \<Rightarrow> nat list \<Rightarrow> bool" where
  "isDirectLoop xs i other [] = True"
| "isDirectLoop xs i other (middle # rest) =
     (if middle \<noteq> i \<and> middle \<noteq> other \<and>
         encloses (xs ! i) (xs ! middle) \<and> encloses (xs ! middle) (xs ! other)
      then False
      else isDirectLoop xs i other rest)"

fun childrenLoop :: "interval list \<Rightarrow> nat \<Rightarrow> nat list \<Rightarrow> int \<Rightarrow> int" where
  "childrenLoop xs i [] childrenTime = childrenTime"
| "childrenLoop xs i (other # rest) childrenTime =
     childrenLoop xs i rest
       (if other \<noteq> i \<and> encloses (xs ! i) (xs ! other)
        then (if isDirectLoop xs i other [0..<length xs]
              then childrenTime + duration (xs ! other) else childrenTime)
        else childrenTime)"

definition selfTime :: "interval list \<Rightarrow> nat \<Rightarrow> int" where
  "selfTime xs i = duration (xs ! i) - childrenLoop xs i [0..<length xs] 0"

definition markerAt :: "interval list \<Rightarrow> nat \<Rightarrow> marker" where
  "markerAt xs i =
     \<lparr>filePath = filePath (xs ! i), startTime = startTime (xs ! i),
      endTime = endTime (xs ! i), duration = selfTime xs i,
      stack = map (\<lambda>j. filePath (xs ! j)) (ancestorChain xs i),
      compilationUnit = None\<rparr>"

definition buildMarkers :: "interval list \<Rightarrow> marker list" where
  "buildMarkers xs = map (markerAt xs) [0..<length xs]"

definition extractSourceMarkers :: "event list \<Rightarrow> marker list" where
  "extractSourceMarkers events = buildMarkers (matchEvents events)"

subsection \<open>Direct children, as the specification words them\<close>

text \<open>
  Interval \<open>j\<close> is a direct child of interval \<open>i\<close> when it is another interval contained
  by \<open>i\<close> and no third interval, also contained by \<open>i\<close>, contains \<open>j\<close>.
\<close>

definition directChild :: "interval list \<Rightarrow> nat \<Rightarrow> nat \<Rightarrow> bool" where
  "directChild xs i j =
     (j \<noteq> i \<and> encloses (xs ! i) (xs ! j) \<and>
      \<not> (\<exists>m\<in>set [0..<length xs]. m \<noteq> i \<and> m \<noteq> j \<and>
           encloses (xs ! i) (xs ! m) \<and> encloses (xs ! m) (xs ! j)))"

definition selfDuration_spec :: "interval list \<Rightarrow> nat \<Rightarrow> int" where
  "selfDuration_spec xs i =
     duration (xs ! i) -
     sum_list (map (\<lambda>j. duration (xs ! j)) (filter (directChild xs i) [0..<length xs]))"

definition scenario2 :: "interval list" where
  "scenario2 =
     [\<lparr>filePath = ''outer.h'', startTime = 0, endTime = 100, duration = 100\<rparr>,
      \<lparr>filePath = ''inner.h'', startTime = 10, endTime = 40, duration = 30\<rparr>]"

lemma isDirectLoop_iff:
  "isDirectLoop xs i j ms \<longleftrightarrow>
     \<not> (\<exists>m\<in>set ms. m \<noteq> i \<and> m \<noteq> j \<and>
          encloses (xs ! i) (xs ! m) \<and> encloses (xs ! m) (xs ! j))"
  by (induction ms) auto

lemma childrenLoop_sum:
  "childrenLoop xs i js acc =
     acc + sum_list (map (\<lambda>j. duration (xs ! j)) (filter (directChild xs i) js))"
proof (induction js arbitrary: acc)
  case Nil
  show ?case by simp
next
  case (Cons j js)
  have "isDirectLoop xs i j [0..<length xs] \<and> j \<noteq> i \<and> encloses (xs ! i) (xs ! j)
          \<longleftrightarrow> directChild xs i j"
    unfolding isDirectLoop_iff directChild_def by blast
  then show ?case
    unfolding childrenLoop.simps Cons.IH by auto
qed

lemma selfTime_spec: "selfTime xs i = selfDuration_spec xs i"
  by (simp add: selfTime_def selfDuration_spec_def childrenLoop_sum)

lemma buildMarkers_length: "length (buildMarkers xs) = length xs"
  by (simp add: buildMarkers_def)

lemma buildMarkers_nth: "i < length xs \<Longrightarrow> buildMarkers xs ! i = markerAt xs i"
  by (simp add: buildMarkers_def)

lemma scenario2_selfTimes: "map duration (buildMarkers scenario2) = [70, 30]"
  by (simp add: buildMarkers_def markerAt_def selfTime_def scenario2_def encloses_def
      upt_rec[of 0] upt_rec[of 1] upt_rec[of 2])

text \<open>
  Claim C2. For every interval of a unit, the self-duration stored in its marker is the
  interval's total duration minus the sum of the durations of exactly its direct children
  (\<open>directChild\<close>: another interval it contains, with no third interval in between); for
  the outer interval from 0 to 100 and the inner one from 10 to 40 the self-durations are
  70 and 30.
\<close>

theorem self_duration_subtracts_direct_children:
  "map duration (buildMarkers xs) = map (selfDuration_spec xs) [0..<length xs] \<and>
   map duration (buildMarkers scenario2) = [70, 30]"
proof
  show "map duration (buildMarkers xs) = map (selfDuration_spec xs) [0..<length xs]"
    by (simp add: buildMarkers_def markerAt_def selfTime_spec)
  show "map duration (buildMarkers scenario2) = [70, 30]"
    by (rule scenario2_selfTimes)
qed

subsection \<open>The ancestor chain\<close>

lemma stackLoop_filter:
  "stackLoop xs i js stk =
     stk @ filter (\<lambda>j. j \<noteq> i \<and> encloses (xs ! j) (xs ! i)) js"
  by (induction js arbitrary: stk) auto

lemma ancestorChain_butlast:
  "butlast (ancestorChain xs i) =
     sort_key (\<lambda>j. startTime (xs ! j))
       (filter (\<lambda>j. j \<noteq> i \<and> encloses (xs ! j) (xs ! i)) [0..<length xs])"
  by (simp add: ancestorChain_def stackLoop_filter)

lemma scenario2_chains:
  "ancestorChain scenario2 0 = [0] \<and> ancestorChain scenario2 1 = [0, 1]"
  by (simp add: ancestorChain_def scenario2_def encloses_def
      upt_rec[of 0] upt_rec[of 1] upt_rec[of 2])

text \<open>
  The chain of interval \<open>i\<close> ends with \<open>i\<close> itself; before it come exactly the other
  intervals \<open>j\<close> of the unit with \<open>startTime j \<le> startTime i\<close> and \<open>endTime j \<ge> endTime i\<close>,
  each once, in ascending order of start time; the marker's \<^verbatim>\<open>stack\<close> lists the files of
  that chain in the same order.
\<close>

lemma ancestorChain_facts:
  assumes "i < length xs"
  shows "last (ancestorChain xs i) = i \<and>
         distinct (butlast (ancestorChain xs i)) \<and>
         set (butlast (ancestorChain xs i)) =
           {j. j < length xs \<and> j \<noteq> i \<and>
               startTime (xs ! j) \<le> startTime (xs ! i) \<and>
               endTime (xs ! j) \<ge> endTime (xs ! i)} \<and>
         sorted (map (\<lambda>j. startTime (xs ! j)) (butlast (ancestorChain xs i))) \<and>
         stack (buildMarkers xs ! i) = map (\<lambda>j. filePath (xs ! j)) (ancestorChain xs i)"
proof (intro conjI)
  show "last (ancestorChain xs i) = i"
    by (simp add: ancestorChain_def)
  show "distinct (butlast (ancestorChain xs i))"
    by (simp add: ancestorChain_butlast)
  show "set (butlast (ancestorChain xs i)) =
          {j. j < length xs \<and> j \<noteq> i \<and>
              startTime (xs ! j) \<le> startTime (xs ! i) \<and>
              endTime (xs ! j) \<ge> endTime (xs ! i)}"
    by (auto simp: ancestorChain_butlast encloses_def)
  show "sorted (map (\<lambda>j. startTime (xs ! j)) (butlast (ancestorChain xs i)))"
    by (simp add: ancestorChain_butlast)
  show "stack (buildMarkers xs ! i) = map (\<lambda>j. filePath (xs ! j)) (ancestorChain xs i)"
    using assms by (simp add: buildMarkers_nth markerAt_def)
qed

section \<open>Conservation of self time\<close>

text \<open>Two intervals are disjoint when one ends no later than the other starts.\<close>

definition disjointI :: "interval \<Rightarrow> interval \<Rightarrow> bool" where
  "disjointI a b = (endTime a \<le> startTime b \<or> endTime b \<le> startTime a)"

text \<open>A laminar family: any two intervals are disjoint or one contains the other.\<close>

definition laminar :: "interval list \<Rightarrow> bool" where
  "laminar xs =
     list_all (\<lambda>i. list_all (\<lambda>j. i = j \<or> disjointI (xs ! i) (xs ! j) \<or>
                                   encloses (xs ! i) (xs ! j) \<or> encloses (xs ! j) (xs ! i))
                       [0..<length xs])
       [0..<length xs]"

text \<open>A root is an interval that no other interval contains.\<close>

definition isRoot :: "interval list \<Rightarrow> nat \<Rightarrow> bool" where
  "isRoot xs i = list_all (\<lambda>j. j = i \<or> \<not> encloses (xs ! j) (xs ! i)) [0..<length xs]"

definition roots :: "interval list \<Rightarrow> nat list" where
  "roots xs = filter (isRoot xs) [0..<length xs]"

text \<open>
  A header \<open>a.h\<close> whose only content is the inclusion of \<open>b.h\<close>, which includes \<open>c.h\<close>, inside
  \<open>main.cpp\<close>; \<open>a.h\<close> and \<open>b.h\<close> begin and end in the same microsecond. The events are in the
  order in which the compiler writes them (each include when it ends).
\<close>

definition trace_forwarding :: "event list" where
  "trace_forwarding =
     mkPair 0 20 30 ''c.h'' @ mkPair 0 10 50 ''b.h'' @ mkPair 0 10 50 ''a.h'' @
     mkPair 0 0 100 ''main.cpp''"


lemma trace_forwarding_intervals:
  "matchEvents trace_forwarding =
     [\<lparr>filePath = ''c.h'', startTime = 20, endTime = 30, duration = 10\<rparr>,
      \<lparr>filePath = ''b.h'', startTime = 10, endTime = 50, duration = 40\<rparr>,
      \<lparr>filePath = ''a.h'', startTime = 10, endTime = 50, duration = 40\<rparr>,
      \<lparr>filePath = ''main.cpp'', startTime = 0, endTime = 100, duration = 100\<rparr>]"
  by (simp add: trace_forwarding_def matchEvents_def mkEvent_def mkPair_def isSource_def
      isBegin_def isEnd_def keyOf_def pool_def detailOf_def)

text \<open>
  Claim C3. The sum of the self-durations of a unit that is a laminar family with exactly
  one root is claimed to equal the root's total duration. The unit matched from
  \<open>trace_forwarding\<close> is laminar and its only root is \<open>main.cpp\<close> with duration 100, but the
  self-durations computed for it add up to 110: \<open>a.h\<close> and \<open>b.h\<close> have the same start and
  end, each counts as an intermediate interval between the other and its surroundings, and
  so \<open>c.h\<close> is subtracted from nobody.
\<close>

theorem self_time_double_counted:
  "laminar (matchEvents trace_forwarding) \<and>
   roots (matchEvents trace_forwarding) = [3] \<and>
   duration (matchEvents trace_forwarding ! 3) = 100 \<and>
   map duration (extractSourceMarkers trace_forwarding) = [10, 0, 0, 100] \<and>
   sum_list (map duration (extractSourceMarkers trace_forwarding)) = 110"
  unfolding extractSourceMarkers_def trace_forwarding_intervals
  by (simp add: laminar_def roots_def isRoot_def disjointI_def encloses_def
      buildMarkers_def markerAt_def selfTime_def
      upt_rec[of 0] upt_rec[of 1] upt_rec[of 2] upt_rec[of 3] upt_rec[of 4])


lemma laminar_iff:
  "laminar xs \<longleftrightarrow>
     (\<forall>i<length xs. \<forall>j<length xs. i \<noteq> j \<longrightarrow>
        disjointI (xs ! i) (xs ! j) \<or> encloses (xs ! i) (xs ! j) \<or> encloses (xs ! j) (xs ! i))"
  unfolding laminar_def list_all_iff set_upt atLeastLessThan_iff Ball_def
  by (simp only: simp_thms le0) blast

lemma isRoot_iff:
  "isRoot xs i \<longleftrightarrow> \<not> (\<exists>j<length xs. j \<noteq> i \<and> encloses (xs ! j) (xs ! i))"
  unfolding isRoot_def list_all_iff set_upt atLeastLessThan_iff Ball_def
  by (simp only: simp_thms le0) blast

text \<open>No two intervals of the unit have both the same start and the same end.\<close>

definition distinctExtents :: "interval list \<Rightarrow> bool" where
  "distinctExtents xs = distinct (map (\<lambda>x. (startTime x, endTime x)) xs)"

text \<open>What the matcher guarantees of each interval.\<close>

definition wellFormed :: "interval list \<Rightarrow> bool" where
  "wellFormed xs =
     list_all (\<lambda>x. startTime x < endTime x \<and> duration x = endTime x - startTime x) xs"

lemma directChild_iff:
  "directChild xs i j \<longleftrightarrow>
     j \<noteq> i \<and> encloses (xs ! i) (xs ! j) \<and>
     \<not> (\<exists>m<length xs. m \<noteq> i \<and> m \<noteq> j \<and>
          encloses (xs ! i) (xs ! m) \<and> encloses (xs ! m) (xs ! j))"
  unfolding directChild_def by auto

lemma direct_parent_exists:
  assumes wf: "wellFormed xs" and de: "distinctExtents xs"
    and j: "j < length xs" and nr: "\<not> isRoot xs j"
  shows "\<exists>p<length xs. directChild xs p j"
proof -
  let ?C = "{i. i < length xs \<and> i \<noteq> j \<and> encloses (xs ! i) (xs ! j)}"
  have fin: "finite ?C" by simp
  from nr have ne: "?C \<noteq> {}" by (auto simp: isRoot_iff)
  let ?d = "Min ((\<lambda>i. duration (xs ! i)) ` ?C)"
  have "?d \<in> (\<lambda>i. duration (xs ! i)) ` ?C"
    using fin ne by (intro Min_in) simp_all
  then obtain p where p: "p \<in> ?C" and pd: "duration (xs ! p) = ?d" by auto
  have pmin: "\<And>i. i \<in> ?C \<Longrightarrow> duration (xs ! p) \<le> duration (xs ! i)"
    unfolding pd using fin by (intro Min_le) simp_all
  from wf have dur: "\<And>i. i < length xs \<Longrightarrow> duration (xs ! i) = endTime (xs ! i) - startTime (xs ! i)"
    by (simp add: wellFormed_def list_all_length)
  have "directChild xs p j"
    unfolding directChild_iff
  proof (intro conjI)
    from p show "j \<noteq> p" by simp
    from p show "encloses (xs ! p) (xs ! j)" by simp
    show "\<not> (\<exists>m<length xs. m \<noteq> p \<and> m \<noteq> j \<and>
          encloses (xs ! p) (xs ! m) \<and> encloses (xs ! m) (xs ! j))"
    proof
    assume "\<exists>m<length xs. m \<noteq> p \<and> m \<noteq> j \<and>
          encloses (xs ! p) (xs ! m) \<and> encloses (xs ! m) (xs ! j)"
    then obtain m where m: "m < length xs" "m \<noteq> p" "m \<noteq> j"
      "encloses (xs ! p) (xs ! m)" "encloses (xs ! m) (xs ! j)" by blast
    then have "m \<in> ?C" by simp
    from pmin[OF this] dur[OF m(1)] dur[of p] p m(4)
    have "startTime (xs ! m) = startTime (xs ! p) \<and> endTime (xs ! m) = endTime (xs ! p)"
      by (simp add: encloses_def)
    then have "map (\<lambda>x. (startTime x, endTime x)) xs ! m = map (\<lambda>x. (startTime x, endTime x)) xs ! p"
      using m(1) p by simp
    with de m(1,2) p show False
      unfolding distinctExtents_def distinct_conv_nth by auto
    qed
  qed
  with p show ?thesis by blast
qed

lemma direct_parent_unique:
  assumes wf: "wellFormed xs" and lam: "laminar xs"
    and i: "i < length xs" and k: "k < length xs" and j: "j < length xs"
    and di: "directChild xs i j" and dk: "directChild xs k j"
  shows "i = k"
proof (rule ccontr)
  assume ne: "i \<noteq> k"
  from wf j have pos: "startTime (xs ! j) < endTime (xs ! j)"
    by (simp add: wellFormed_def list_all_length)
  from di dk have ei: "encloses (xs ! i) (xs ! j)" and ek: "encloses (xs ! k) (xs ! j)"
    and ij: "j \<noteq> i" and kj: "j \<noteq> k"
    by (simp_all add: directChild_iff)
  from ei ek pos have "\<not> disjointI (xs ! i) (xs ! k)"
    by (auto simp: disjointI_def encloses_def)
  with lam i k ne have "encloses (xs ! i) (xs ! k) \<or> encloses (xs ! k) (xs ! i)"
    unfolding laminar_iff by blast
  then show False
  proof
    assume "encloses (xs ! i) (xs ! k)"
    with ek k ne kj di show False unfolding directChild_iff by blast
  next
    assume "encloses (xs ! k) (xs ! i)"
    with ei i ne ij dk show False unfolding directChild_iff by blast
  qed
qed

lemma root_no_parent: "isRoot xs j \<Longrightarrow> i < length xs \<Longrightarrow> \<not> directChild xs i j"
  unfolding isRoot_iff directChild_iff by blast

text \<open>The sum of the self times is the sum of the durations of the roots.\<close>

lemma selfTime_as_sum:
  "selfTime xs i =
     duration (xs ! i) -
     (\<Sum>j<length xs. if directChild xs i j then duration (xs ! j) else 0)"
proof -
  have "sum_list (map (\<lambda>j. duration (xs ! j)) (filter (directChild xs i) [0..<length xs]))
        = sum_list (map (\<lambda>j. if directChild xs i j then duration (xs ! j) else 0) [0..<length xs])"
    by (simp add: sum_list_map_filter')
  also have "\<dots> = (\<Sum>j<length xs. if directChild xs i j then duration (xs ! j) else 0)"
    by (simp add: interv_sum_list_conv_sum_set_nat atLeast0LessThan)
  finally show ?thesis
    by (simp add: selfTime_spec selfDuration_spec_def)
qed

lemma parents_sum:
  assumes wf: "wellFormed xs" and lam: "laminar xs" and de: "distinctExtents xs"
    and j: "j < length xs"
  shows "(\<Sum>i<length xs. if directChild xs i j then duration (xs ! j) else 0)
         = (if isRoot xs j then 0 else duration (xs ! j))"
proof (cases "isRoot xs j")
  case True
  then have "\<And>i. i \<in> {..<length xs} \<Longrightarrow>
      (if directChild xs i j then duration (xs ! j) else 0) = 0"
    using root_no_parent by simp
  then have "(\<Sum>i<length xs. if directChild xs i j then duration (xs ! j) else 0) = 0"
    by (intro sum.neutral) blast
  with True show ?thesis by simp
next
  case False
  from direct_parent_exists[OF wf de j False]
  obtain p where p: "p < length xs" "directChild xs p j" by blast
  have "(if directChild xs i j then duration (xs ! j) else 0)
      = (if i = p then duration (xs ! j) else 0)" if "i \<in> {..<length xs}" for i
  proof (cases "directChild xs i j")
    case True
    from that have "i < length xs" by simp
    from direct_parent_unique[OF wf lam this p(1) j True p(2)] True show ?thesis by simp
  next
    case False
    with p(2) have "i \<noteq> p" by blast
    with False show ?thesis by simp
  qed
  then have "(\<Sum>i<length xs. if directChild xs i j then duration (xs ! j) else 0)
      = (\<Sum>i<length xs. if i = p then duration (xs ! j) else 0)"
    by (intro sum.cong) simp_all
  also have "\<dots> = duration (xs ! j)"
    using p(1) by simp
  finally show ?thesis using False by simp
qed

lemma self_time_sum_roots:
  assumes wf: "wellFormed xs" and lam: "laminar xs" and de: "distinctExtents xs"
  shows "sum_list (map duration (buildMarkers xs))
         = sum_list (map (\<lambda>r. duration (xs ! r)) (roots xs))"
proof -
  let ?n = "length xs"
  let ?d = "\<lambda>j. duration (xs ! j)"
  have "sum_list (map duration (buildMarkers xs)) = sum_list (map (selfTime xs) [0..<?n])"
    by (simp add: buildMarkers_def markerAt_def comp_def)
  also have "\<dots> = (\<Sum>i<?n. selfTime xs i)"
    by (simp add: interv_sum_list_conv_sum_set_nat atLeast0LessThan)
  also have "\<dots> = (\<Sum>i<?n. ?d i - (\<Sum>j<?n. if directChild xs i j then ?d j else 0))"
    by (intro sum.cong refl selfTime_as_sum)
  also have "\<dots> = (\<Sum>i<?n. ?d i) - (\<Sum>i<?n. \<Sum>j<?n. if directChild xs i j then ?d j else 0)"
    by (rule sum_subtractf)
  also have "(\<Sum>i<?n. \<Sum>j<?n. if directChild xs i j then ?d j else 0)
           = (\<Sum>j<?n. \<Sum>i<?n. if directChild xs i j then ?d j else 0)"
    by (rule sum.swap)
  also have "\<dots> = (\<Sum>j<?n. if isRoot xs j then 0 else ?d j)"
    by (intro sum.cong refl parents_sum[OF wf lam de]) simp
  also have "(\<Sum>i<?n. ?d i) - (\<Sum>j<?n. if isRoot xs j then 0 else ?d j)
           = (\<Sum>j<?n. ?d j - (if isRoot xs j then 0 else ?d j))"
    by (rule sum_subtractf[symmetric])
  also have "\<dots> = (\<Sum>j<?n. if isRoot xs j then ?d j else 0)"
    by (intro sum.cong refl) simp
  also have "\<dots> = sum_list (map (\<lambda>j. if isRoot xs j then ?d j else 0) [0..<?n])"
    by (simp add: interv_sum_list_conv_sum_set_nat atLeast0LessThan)
  also have "\<dots> = sum_list (map ?d (roots xs))"
    by (simp add: roots_def sum_list_map_filter')
  finally show ?thesis .
qed

lemma self_time_conservation:
  assumes "wellFormed xs" "laminar xs" "distinctExtents xs" "roots xs = [r]"
  shows "sum_list (map duration (buildMarkers xs)) = duration (xs ! r)"
  using self_time_sum_roots[OF assms(1,2,3)] assms(4) by simp

lemma matchEvents_wellFormed: "wellFormed (matchEvents events)"
  unfolding wellFormed_def list_all_iff using matchEvents_positive by blast

text \<open>The same for the markers extracted from a trace: the matcher's intervals are
  well formed.\<close>

lemma self_time_conservation_trace:
  assumes "laminar (matchEvents events)" "distinctExtents (matchEvents events)"
    and "roots (matchEvents events) = [r]"
  shows "sum_list (map duration (extractSourceMarkers events))
         = duration (matchEvents events ! r)"
  unfolding extractSourceMarkers_def
  by (rule self_time_conservation[OF matchEvents_wellFormed assms])

section \<open>Order of the ancestor chain\<close>

text \<open>
  A header \<open>x.h\<close> whose first line includes \<open>y.h\<close>, so that both begin in the same
  microsecond, and \<open>y.h\<close> includes \<open>z.h\<close>. The events are in the order in which the
  compiler writes them (each include when it ends).
\<close>

definition trace_tie :: "event list" where
  "trace_tie = mkPair 0 20 30 ''z.h'' @ mkPair 0 0 50 ''y.h'' @ mkPair 0 0 100 ''x.h''"

lemma trace_tie_intervals:
  "matchEvents trace_tie =
     [\<lparr>filePath = ''z.h'', startTime = 20, endTime = 30, duration = 10\<rparr>,
      \<lparr>filePath = ''y.h'', startTime = 0, endTime = 50, duration = 50\<rparr>,
      \<lparr>filePath = ''x.h'', startTime = 0, endTime = 100, duration = 100\<rparr>]"
  by (simp add: trace_tie_def matchEvents_def mkEvent_def mkPair_def isSource_def
      isBegin_def isEnd_def keyOf_def pool_def detailOf_def)

text \<open>
  Claim C4. The chain of an interval is claimed to list the other intervals that contain
  it sorted by start time, outermost first, and then the interval itself. For \<open>z.h\<close> in
  \<open>trace_tie\<close> the emitted stack is \<open>y.h\<close>, \<open>x.h\<close>, \<open>z.h\<close>: the exact containers, in
  ascending order of start time and with \<open>z.h\<close> last, but \<open>y.h\<close> stands before \<open>x.h\<close>
  although \<open>x.h\<close> contains \<open>y.h\<close> and not the other way round. The two start together and
  the sort compares start times only, so it leaves them in array order.
\<close>

theorem chain_inner_before_outer:
  "map filePath (matchEvents trace_tie) = [''z.h'', ''y.h'', ''x.h''] \<and>
   laminar (matchEvents trace_tie) \<and>
   ancestorChain (matchEvents trace_tie) 0 = [1, 2, 0] \<and>
   stack (extractSourceMarkers trace_tie ! 0) = [''y.h'', ''x.h'', ''z.h''] \<and>
   encloses (matchEvents trace_tie ! 2) (matchEvents trace_tie ! 1) \<and>
   \<not> encloses (matchEvents trace_tie ! 1) (matchEvents trace_tie ! 2)"
  unfolding extractSourceMarkers_def trace_tie_intervals
  by (simp add: laminar_def disjointI_def encloses_def buildMarkers_def markerAt_def
      ancestorChain_def upt_rec[of 0] upt_rec[of 1] upt_rec[of 2] upt_rec[of 3])

text \<open>
  In a well-formed laminar unit, two containers of an interval that start at different
  times do come outermost first.
\<close>

lemma ancestorChain_outermost_first:
  assumes wf: "wellFormed xs" and lam: "laminar xs" and i: "i < length xs"
    and ab: "a < b" "b < length (butlast (ancestorChain xs i))"
    and ne: "startTime (xs ! (ancestorChain xs i ! a)) \<noteq> startTime (xs ! (ancestorChain xs i ! b))"
  shows "encloses (xs ! (ancestorChain xs i ! a)) (xs ! (ancestorChain xs i ! b))"
proof -
  let ?c = "butlast (ancestorChain xs i)"
  let ?p = "?c ! a" and ?q = "?c ! b"
  from ab have a: "a < length ?c" by simp
  have nth: "ancestorChain xs i ! a = ?p" "ancestorChain xs i ! b = ?q"
    using a ab(2) by (simp_all add: nth_butlast)
  have mem: "\<And>k. k \<in> set ?c \<Longrightarrow> k < length xs \<and> k \<noteq> i \<and> encloses (xs ! k) (xs ! i)"
    by (auto simp: ancestorChain_butlast)
  from mem[of ?p] a have p: "?p < length xs" "encloses (xs ! ?p) (xs ! i)" by simp_all
  from mem[of ?q] ab(2) have q: "?q < length xs" "encloses (xs ! ?q) (xs ! i)" by simp_all
  have "sorted (map (\<lambda>j. startTime (xs ! j)) ?c)"
    by (simp add: ancestorChain_butlast)
  with ab have le: "startTime (xs ! ?p) \<le> startTime (xs ! ?q)"
    using sorted_iff_nth_mono[of "map (\<lambda>j. startTime (xs ! j)) ?c"] a by fastforce
  from ne nth have pq: "?p \<noteq> ?q" by auto
  from wf i have pos: "startTime (xs ! i) < endTime (xs ! i)"
    by (simp add: wellFormed_def list_all_length)
  from p(2) q(2) pos have "\<not> disjointI (xs ! ?p) (xs ! ?q)"
    by (auto simp: disjointI_def encloses_def)
  with lam p(1) q(1) pq have "encloses (xs ! ?p) (xs ! ?q) \<or> encloses (xs ! ?q) (xs ! ?p)"
    unfolding laminar_iff by blast
  moreover from le ne nth have "\<not> encloses (xs ! ?q) (xs ! ?p)"
    by (auto simp: encloses_def)
  ultimately show ?thesis using nth by simp
qed

section \<open>The dashboard converter\<close>

subsection \<open>Nearest parent\<close>

record includeRec = interval +
  parentFile :: "string option"

text \<open>
  The inner loop of \<^verbatim>\<open>buildIncludeHierarchy\<close>. Its state is \<^verbatim>\<open>immediateParent\<close> (a position,
  \<open>None\<close> for \<^verbatim>\<open>null\<close>) and \<^verbatim>\<open>smallestParentDuration\<close> (\<open>None\<close> for \<^verbatim>\<open>Infinity\<close>, which every
  duration is below).
\<close>

fun parentLoop ::
  "interval list \<Rightarrow> nat \<Rightarrow> nat list \<Rightarrow> nat option \<Rightarrow> int option \<Rightarrow> nat option" where
  "parentLoop xs i [] immediateParent smallestParentDuration = immediateParent"
| "parentLoop xs i (other # rest) immediateParent smallestParentDuration =
     (if other \<noteq> i \<and> encloses (xs ! other) (xs ! i) \<and>
         (case smallestParentDuration of
            None \<Rightarrow> True
          | Some d \<Rightarrow> duration (xs ! other) < d)
      then parentLoop xs i rest (Some other) (Some (duration (xs ! other)))
      else parentLoop xs i rest immediateParent smallestParentDuration)"

definition immediateParent :: "interval list \<Rightarrow> nat \<Rightarrow> nat option" where
  "immediateParent xs i = parentLoop xs i [0..<length xs] None None"

definition includeAt :: "interval list \<Rightarrow> nat \<Rightarrow> includeRec" where
  "includeAt xs i =
     \<lparr>filePath = filePath (xs ! i), startTime = startTime (xs ! i),
      endTime = endTime (xs ! i), duration = duration (xs ! i),
      parentFile = (case immediateParent xs i of
                      None \<Rightarrow> None
                    | Some p \<Rightarrow> Some (filePath (xs ! p)))\<rparr>"

definition buildIncludeHierarchy :: "interval list \<Rightarrow> includeRec list" where
  "buildIncludeHierarchy xs = map (includeAt xs) [0..<length xs]"

subsection \<open>Counting files and building the output arrays\<close>

text \<open>A value used as a condition (\<^verbatim>\<open>if (inc.parentFile)\<close>, \<^verbatim>\<open>inc.parentFile ? .. : ..\<close>):
  \<^verbatim>\<open>null\<close> and the empty string are falsy.\<close>

definition truthy :: "string option \<Rightarrow> bool" where
  "truthy v = (case v of None \<Rightarrow> False | Some str \<Rightarrow> str \<noteq> [])"

text \<open>
  \<^verbatim>\<open>fileUsageCount\<close> is a \<^verbatim>\<open>Map\<close>, iterated in insertion order: an association list in
  which \<^verbatim>\<open>set\<close> on a present key keeps the key's place.
  \<^verbatim>\<open>fileUsageCount.set(f, (fileUsageCount.get(f) || 0) + 1)\<close> is \<open>bump\<close>.
\<close>

fun bump :: "(string \<times> nat) list \<Rightarrow> string \<Rightarrow> (string \<times> nat) list" where
  "bump [] f = [(f, 1)]"
| "bump ((g, c) # m) f = (if g = f then (g, c + 1) # m else (g, c) # bump m f)"

definition strOf :: "string option \<Rightarrow> string" where
  "strOf v = (case v of None \<Rightarrow> [] | Some str \<Rightarrow> str)"

fun countIncludes :: "(string \<times> nat) list \<Rightarrow> includeRec list \<Rightarrow> (string \<times> nat) list" where
  "countIncludes m [] = m"
| "countIncludes m (inc # incs) =
     countIncludes
       (if truthy (parentFile inc)
        then bump (bump m (filePath inc)) (strOf (parentFile inc))
        else bump m (filePath inc))
       incs"

text \<open>
  One element of \<^verbatim>\<open>compilationUnitsData\<close>. The build time read from the
  \<^verbatim>\<open>ExecuteCompiler\<close> event is carried along by the source but enters none of the arrays
  modelled here, so it is left out.
\<close>

record cuData =
  cuName :: string
  cuIncludes :: "includeRec list"

text \<open>
  The body of the loop over \<^verbatim>\<open>jsonFiles\<close>: a file whose trace yields no interval is
  skipped (\<^verbatim>\<open>continue\<close>); otherwise the hierarchy is built, sorted by start time (a stable
  sort), counted, and pushed.
\<close>

definition processFile ::
  "cuData list \<times> (string \<times> nat) list \<Rightarrow> string \<times> event list \<Rightarrow>
   cuData list \<times> (string \<times> nat) list" where
  "processFile st f =
     (let intervals = extractSourceMarkers_dashboard (snd f) in
      if intervals = [] then st
      else
        (let includesWithHierarchy = sort_key startTime (buildIncludeHierarchy intervals)
         in (fst st @ [\<lparr>cuName = fst f, cuIncludes = includesWithHierarchy\<rparr>],
             countIncludes (snd st) includesWithHierarchy)))"

definition processFiles ::
  "(string \<times> event list) list \<Rightarrow> cuData list \<times> (string \<times> nat) list" where
  "processFiles fs = foldl processFile ([], []) fs"

text \<open>\<^verbatim>\<open>Array.from(fileUsageCount.entries()).sort((a, b) => b[1] - a[1]).map(([file, _]) => file)\<close>:
  a stable sort by descending count.\<close>

definition filesArrayOf :: "(string \<times> nat) list \<Rightarrow> string list" where
  "filesArrayOf fileUsageCount = map fst (sort_key (\<lambda>e. - int (snd e)) fileUsageCount)"

text \<open>\<^verbatim>\<open>filesArray.forEach((file, idx) => fileToId.set(file, idx))\<close>\<close>

fun fileToIdLoop :: "(string \<rightharpoonup> nat) \<Rightarrow> nat \<Rightarrow> string list \<Rightarrow> (string \<rightharpoonup> nat)" where
  "fileToIdLoop m idx [] = m"
| "fileToIdLoop m idx (f # fs) = fileToIdLoop (m(f \<mapsto> idx)) (Suc idx) fs"

definition fileToIdOf :: "string list \<Rightarrow> (string \<rightharpoonup> nat)" where
  "fileToIdOf filesArray = fileToIdLoop Map.empty 0 filesArray"

text \<open>\<^verbatim>\<open>compilationUnitsData.sort((a, b) => b.includes.length - a.includes.length)\<close>\<close>

definition sortUnits :: "cuData list \<Rightarrow> cuData list" where
  "sortUnits cus = sort_key (\<lambda>cu. - int (length (cuIncludes cu))) cus"

text \<open>
  \<^verbatim>\<open>Math.round(x / 1000)\<close> on an integer number of microseconds: the nearest integer, a
  half rounded up.
\<close>

definition roundMs :: "int \<Rightarrow> int" where
  "roundMs x = (x + 500) div 1000"

text \<open>
  The four arrays of one unit. \<^verbatim>\<open>fileToId.get\<close> gives \<^verbatim>\<open>undefined\<close> (\<open>None\<close>) for a file that
  is not in the dictionary.
\<close>

record cuArrays =
  fileIds :: "int option list"
  startTimes :: "int list"
  durations :: "int list"
  parentFileIds :: "int option list"

definition parentFileIdOf :: "(string \<rightharpoonup> nat) \<Rightarrow> includeRec \<Rightarrow> int option" where
  "parentFileIdOf fileToId inc =
     (if truthy (parentFile inc) then map_option int (fileToId (strOf (parentFile inc)))
      else Some (- 1))"

fun encodeLoop :: "(string \<rightharpoonup> nat) \<Rightarrow> int \<Rightarrow> includeRec list \<Rightarrow> cuArrays" where
  "encodeLoop fileToId prevStartTime [] =
     \<lparr>fileIds = [], startTimes = [], durations = [], parentFileIds = []\<rparr>"
| "encodeLoop fileToId prevStartTime (inc # incs) =
     (let startTimeMs = roundMs (startTime inc);
          rest = encodeLoop fileToId startTimeMs incs
      in \<lparr>fileIds = map_option int (fileToId (filePath inc)) # fileIds rest,
          startTimes = (startTimeMs - prevStartTime) # startTimes rest,
          durations = roundMs (duration inc) # durations rest,
          parentFileIds = parentFileIdOf fileToId inc # parentFileIds rest\<rparr>)"

text \<open>The part of the output document the claims are about: \<^verbatim>\<open>tables.files\<close>, the unit
  names and \<^verbatim>\<open>includes\<close> (one \<open>cuArrays\<close> per unit, in the order of the sorted units).\<close>

record dashboard =
  files :: "string list"
  names :: "string list"
  includesOut :: "cuArrays list"

definition buildDashboard :: "(string \<times> event list) list \<Rightarrow> dashboard" where
  "buildDashboard fs =
     (let st = processFiles fs;
          filesArray = filesArrayOf (snd st);
          fileToId = fileToIdOf filesArray;
          compilationUnitsData = sortUnits (fst st)
      in \<lparr>files = filesArray,
          names = map cuName compilationUnitsData,
          includesOut = map (\<lambda>cu. encodeLoop fileToId 0 (cuIncludes cu)) compilationUnitsData\<rparr>)"

subsection \<open>The nearest parent is a tightest container\<close>

lemma parentLoop_spec:
  assumes "case p of None \<Rightarrow> d = None | Some q \<Rightarrow> d = Some (duration (xs ! q))"
  shows "case parentLoop xs i js p d of
           None \<Rightarrow> p = None \<and> (\<forall>j\<in>set js. \<not> (j \<noteq> i \<and> encloses (xs ! j) (xs ! i)))
         | Some r \<Rightarrow>
             (Some r = p \<or> (r \<in> set js \<and> r \<noteq> i \<and> encloses (xs ! r) (xs ! i))) \<and>
             (\<forall>j\<in>set js. j \<noteq> i \<and> encloses (xs ! j) (xs ! i) \<longrightarrow>
                duration (xs ! r) \<le> duration (xs ! j)) \<and>
             (\<forall>q. p = Some q \<longrightarrow> duration (xs ! r) \<le> duration (xs ! q))"
  using assms
proof (induction js arbitrary: p d)
  case Nil
  then show ?case by (cases p) auto
next
  case (Cons j js)
  let ?take = "j \<noteq> i \<and> encloses (xs ! j) (xs ! i) \<and>
         (case d of None \<Rightarrow> True | Some dd \<Rightarrow> duration (xs ! j) < dd)"
  show ?case
  proof (cases ?take)
    case True
    then have step: "parentLoop xs i (j # js) p d =
        parentLoop xs i js (Some j) (Some (duration (xs ! j)))"
      by simp
    have ih: "case parentLoop xs i js (Some j) (Some (duration (xs ! j))) of
           None \<Rightarrow> Some j = None \<and> (\<forall>k\<in>set js. \<not> (k \<noteq> i \<and> encloses (xs ! k) (xs ! i)))
         | Some r \<Rightarrow>
             (Some r = Some j \<or> (r \<in> set js \<and> r \<noteq> i \<and> encloses (xs ! r) (xs ! i))) \<and>
             (\<forall>k\<in>set js. k \<noteq> i \<and> encloses (xs ! k) (xs ! i) \<longrightarrow>
                duration (xs ! r) \<le> duration (xs ! k)) \<and>
             (\<forall>q. Some j = Some q \<longrightarrow> duration (xs ! r) \<le> duration (xs ! q))"
      by (rule Cons.IH) simp
    from True Cons.prems have below: "\<forall>q. p = Some q \<longrightarrow> duration (xs ! j) < duration (xs ! q)"
      by (cases p) auto
    show ?thesis
      unfolding step using ih True below
      by (cases "parentLoop xs i js (Some j) (Some (duration (xs ! j)))") force+
  next
    case False
    then have step: "parentLoop xs i (j # js) p d = parentLoop xs i js p d"
      by auto
    have ih: "case parentLoop xs i js p d of
           None \<Rightarrow> p = None \<and> (\<forall>k\<in>set js. \<not> (k \<noteq> i \<and> encloses (xs ! k) (xs ! i)))
         | Some r \<Rightarrow>
             (Some r = p \<or> (r \<in> set js \<and> r \<noteq> i \<and> encloses (xs ! r) (xs ! i))) \<and>
             (\<forall>k\<in>set js. k \<noteq> i \<and> encloses (xs ! k) (xs ! i) \<longrightarrow>
                duration (xs ! r) \<le> duration (xs ! k)) \<and>
             (\<forall>q. p = Some q \<longrightarrow> duration (xs ! r) \<le> duration (xs ! q))"
      by (rule Cons.IH) (rule Cons.prems)
    from False Cons.prems
    have skip: "j \<noteq> i \<and> encloses (xs ! j) (xs ! i) \<longrightarrow>
        (\<exists>q. p = Some q \<and> duration (xs ! q) \<le> duration (xs ! j))"
      by (cases p) auto
    show ?thesis
      unfolding step using ih skip
      by (cases "parentLoop xs i js p d") force+
  qed
qed

lemma immediateParent_None:
  "immediateParent xs i = None \<Longrightarrow>
     \<forall>j<length xs. \<not> (j \<noteq> i \<and> encloses (xs ! j) (xs ! i))"
  using parentLoop_spec[where p=None and d=None and xs=xs and i=i and js="[0..<length xs]"]
  by (simp add: immediateParent_def)

lemma immediateParent_Some:
  "immediateParent xs i = Some p \<Longrightarrow>
     p < length xs \<and> p \<noteq> i \<and> encloses (xs ! p) (xs ! i) \<and>
     (\<forall>j<length xs. j \<noteq> i \<and> encloses (xs ! j) (xs ! i) \<longrightarrow>
        duration (xs ! p) \<le> duration (xs ! j))"
  using parentLoop_spec[where p=None and d=None and xs=xs and i=i and js="[0..<length xs]"]
  by (simp add: immediateParent_def)

lemma buildIncludeHierarchy_nth:
  "i < length xs \<Longrightarrow> buildIncludeHierarchy xs ! i = includeAt xs i"
  by (simp add: buildIncludeHierarchy_def)

lemma parentFileIds_encodeLoop:
  "parentFileIds (encodeLoop fileToId prev incs) = map (parentFileIdOf fileToId) incs"
  by (induction incs arbitrary: prev) (simp_all add: Let_def)

lemma scenario2_parents:
  "immediateParent scenario2 0 = None \<and> immediateParent scenario2 (Suc 0) = Some 0"
  by (simp add: immediateParent_def scenario2_def encloses_def
      upt_rec[of 0] upt_rec[of 1] upt_rec[of 2])

text \<open>
  Claim C5. In nearest-parent mode the parent chosen for interval \<open>i\<close> is another interval
  that contains it and whose duration is least among all the intervals containing \<open>i\<close>;
  the parent is none exactly when no other interval contains \<open>i\<close>, and then the entry of
  \<^verbatim>\<open>parentFileIds\<close> written for it is \<open>-1\<close>.
\<close>

theorem nearest_parent_is_tightest_container:
  assumes "i < length xs"
  shows "(case immediateParent xs i of
            None \<Rightarrow>
              \<not> (\<exists>j<length xs. j \<noteq> i \<and> encloses (xs ! j) (xs ! i)) \<and>
              parentFile (buildIncludeHierarchy xs ! i) = None \<and>
              parentFileIdOf fileToId (buildIncludeHierarchy xs ! i) = Some (- 1)
          | Some p \<Rightarrow>
              p < length xs \<and> p \<noteq> i \<and>
              startTime (xs ! p) \<le> startTime (xs ! i) \<and> endTime (xs ! p) \<ge> endTime (xs ! i) \<and>
              (\<forall>j<length xs. j \<noteq> i \<and> encloses (xs ! j) (xs ! i) \<longrightarrow>
                 duration (xs ! p) \<le> duration (xs ! j)) \<and>
              parentFile (buildIncludeHierarchy xs ! i) = Some (filePath (xs ! p))) \<and>
         parentFileIds (encodeLoop fileToId prev incs) = map (parentFileIdOf fileToId) incs"
proof (intro conjI)
  show "case immediateParent xs i of
            None \<Rightarrow>
              \<not> (\<exists>j<length xs. j \<noteq> i \<and> encloses (xs ! j) (xs ! i)) \<and>
              parentFile (buildIncludeHierarchy xs ! i) = None \<and>
              parentFileIdOf fileToId (buildIncludeHierarchy xs ! i) = Some (- 1)
          | Some p \<Rightarrow>
              p < length xs \<and> p \<noteq> i \<and>
              startTime (xs ! p) \<le> startTime (xs ! i) \<and> endTime (xs ! p) \<ge> endTime (xs ! i) \<and>
              (\<forall>j<length xs. j \<noteq> i \<and> encloses (xs ! j) (xs ! i) \<longrightarrow>
                 duration (xs ! p) \<le> duration (xs ! j)) \<and>
              parentFile (buildIncludeHierarchy xs ! i) = Some (filePath (xs ! p))"
  proof (cases "immediateParent xs i")
    case None
    from immediateParent_None[OF None] assms None show ?thesis
      by (simp add: buildIncludeHierarchy_nth includeAt_def parentFileIdOf_def truthy_def)
  next
    case (Some p)
    from immediateParent_Some[OF Some] assms Some show ?thesis
      by (simp add: buildIncludeHierarchy_nth includeAt_def encloses_def)
  qed
  show "parentFileIds (encodeLoop fileToId prev incs) = map (parentFileIdOf fileToId) incs"
    by (rule parentFileIds_encodeLoop)
qed

theorem nearest_parent_is_tightest_container_witness:
  "(0::nat) < length scenario2 \<and> Suc 0 < length scenario2 \<and>
   immediateParent scenario2 0 = None \<and>
   parentFileIdOf Map.empty (buildIncludeHierarchy scenario2 ! 0) = Some (- 1) \<and>
   immediateParent scenario2 (Suc 0) = Some 0 \<and>
   parentFile (buildIncludeHierarchy scenario2 ! Suc 0) = Some ''outer.h''"
proof -
  have len: "(0::nat) < length scenario2" "Suc 0 < length scenario2"
    by (simp_all add: scenario2_def)
  have outer: "filePath (scenario2 ! 0) = ''outer.h''"
    by (simp add: scenario2_def)
  from nearest_parent_is_tightest_container[OF len(1), of Map.empty 0 "[]"]
    nearest_parent_is_tightest_container[OF len(2), of Map.empty 0 "[]"]
    len outer
  show ?thesis
    by (simp add: scenario2_parents)
qed

subsection \<open>Delta encoding of the start times\<close>

text \<open>What a reader of the dashboard does to recover absolute times: the running sum of
  the deltas, starting from \<open>acc\<close>.\<close>

fun runningSum :: "int \<Rightarrow> int list \<Rightarrow> int list" where
  "runningSum acc [] = []"
| "runningSum acc (d # ds) = (acc + d) # runningSum (acc + d) ds"

text \<open>Three includes that start at 100, 250 and 400 microseconds, the unit of the trace.\<close>

definition trace_us :: "event list" where
  "trace_us = mkPair 1 100 150 ''a.h'' @ mkPair 2 250 300 ''b.h'' @ mkPair 3 400 450 ''c.h''"

text \<open>Three includes that start at 100, 250 and 400 milliseconds.\<close>

definition trace_ms :: "event list" where
  "trace_ms =
     mkPair 1 100000 150000 ''a.h'' @ mkPair 2 250000 300000 ''b.h'' @
     mkPair 3 400000 450000 ''c.h''"

lemma startTimes_encodeLoop_length:
  "length (startTimes (encodeLoop fileToId prev incs)) = length incs"
  by (induction incs arbitrary: prev) (simp_all add: Let_def)

lemma startTimes_encodeLoop_nth:
  "n < length incs \<Longrightarrow>
     startTimes (encodeLoop fileToId prev incs) ! n =
       roundMs (startTime (incs ! n)) -
       (if n = 0 then prev else roundMs (startTime (incs ! (n - 1))))"
proof (induction incs arbitrary: prev n)
  case Nil
  then show ?case by simp
next
  case (Cons inc incs)
  show ?case
  proof (cases n)
    case 0
    then show ?thesis by (simp add: Let_def)
  next
    case (Suc k)
    with Cons.prems have k: "k < length incs" by simp
    from Cons.IH[OF k, of "roundMs (startTime inc)"] Suc show ?thesis
      by (cases k) (simp_all add: Let_def)
  qed
qed

lemma startTimes_encodeLoop_runningSum:
  "runningSum prev (startTimes (encodeLoop fileToId prev incs)) =
     map (\<lambda>inc. roundMs (startTime inc)) incs"
  by (induction incs arbitrary: prev) (simp_all add: Let_def)

lemma durations_encodeLoop:
  "durations (encodeLoop fileToId prev incs) = map (\<lambda>inc. roundMs (duration inc)) incs"
  by (induction incs arbitrary: prev) (simp_all add: Let_def)

lemma roundMs_nearest: "- 500 \<le> x - 1000 * roundMs x \<and> x - 1000 * roundMs x < 500"
proof -
  have "(x + 500) mod 1000 = x + 500 - 1000 * ((x + 500) div 1000)"
    by (simp add: minus_mult_div_eq_mod)
  moreover have "0 \<le> (x + 500) mod 1000" "(x + 500) mod 1000 < 1000"
    by simp_all
  ultimately show ?thesis
    unfolding roundMs_def by linarith
qed

lemma includesOut_nth:
  assumes "k < length (sortUnits (fst (processFiles fs)))"
  shows "includesOut (buildDashboard fs) ! k =
           encodeLoop (fileToIdOf (files (buildDashboard fs))) 0
             (cuIncludes (sortUnits (fst (processFiles fs)) ! k))"
  using assms by (simp add: buildDashboard_def Let_def)

lemma includesOut_length:
  "length (includesOut (buildDashboard fs)) = length (sortUnits (fst (processFiles fs)))"
  by (simp add: buildDashboard_def Let_def)

lemmas dashboard_eval =
  matchEvents_def mkEvent_def mkPair_def isSource_def isBegin_def isEnd_def keyOf_def
  pool_def detailOf_def buildDashboard_def processFiles_def processFile_def
  extractSourceMarkers_dashboard_def buildIncludeHierarchy_def includeAt_def
  immediateParent_def encloses_def filesArrayOf_def fileToIdOf_def sortUnits_def
  roundMs_def parentFileIdOf_def truthy_def strOf_def Let_def

text \<open>
  Claim C7, as stated, fails: three intervals whose start timestamps are 100, 250 and 400
  get the \<^verbatim>\<open>startTimes\<close> array \<open>[0, 0, 0]\<close>, not \<open>[100, 150, 150]\<close>, because the timestamps
  are microseconds and are divided by 1000 and rounded first; the running sum of that
  array is \<open>[0, 0, 0]\<close>, not the original start times.
\<close>

theorem start_times_lossy_counterexample:
  "map startTime (matchEvents trace_us) = [100, 250, 400] \<and>
   map startTimes (includesOut (buildDashboard [(''unit'', trace_us)])) \<noteq> [[100, 150, 150]] \<and>
   map (runningSum 0 \<circ> startTimes) (includesOut (buildDashboard [(''unit'', trace_us)]))
     \<noteq> [[100, 250, 400]]"
  by (simp add: trace_us_def dashboard_eval
      upt_rec[of 0] upt_rec[of 1] upt_rec[of 2] upt_rec[of 3])

text \<open>
  Claim C7, amended. For every unit of the dashboard output, the \<^verbatim>\<open>startTimes\<close> array holds,
  for each interval, its start time rounded to whole milliseconds (\<open>roundMs\<close>, the nearest
  integer to a thousandth of the timestamp) minus the rounded start time of the interval
  before it in the unit, the first one relative to zero; the running sum of the array
  gives back exactly the rounded millisecond start times. Durations are rounded the same
  way; rounding is to the nearest millisecond (1499 gives 1, 1500 gives 2), not truncation.
  Intervals that start at 100, 250 and 400 milliseconds (timestamps 100000, 250000,
  400000) yield \<open>[100, 150, 150]\<close>.
\<close>

theorem start_times_delta_encoded:
  assumes "k < length (includesOut (buildDashboard fs))"
  shows "(let incs = cuIncludes (sortUnits (fst (processFiles fs)) ! k);
              st = startTimes (includesOut (buildDashboard fs) ! k)
          in length st = length incs \<and>
             (\<forall>n<length incs.
                st ! n = roundMs (startTime (incs ! n)) -
                         (if n = 0 then 0 else roundMs (startTime (incs ! (n - 1))))) \<and>
             runningSum 0 st = map (\<lambda>inc. roundMs (startTime inc)) incs \<and>
             durations (includesOut (buildDashboard fs) ! k)
               = map (\<lambda>inc. roundMs (duration inc)) incs) \<and>
         (- 500 \<le> x - 1000 * roundMs x \<and> x - 1000 * roundMs x < 500) \<and>
         roundMs 1499 = 1 \<and> roundMs 1500 = 2 \<and>
         map startTimes (includesOut (buildDashboard [(''unit'', trace_ms)]))
           = [[100, 150, 150]]"
proof (intro conjI)
  from assms have k: "k < length (sortUnits (fst (processFiles fs)))"
    by (simp add: includesOut_length)
  show "let incs = cuIncludes (sortUnits (fst (processFiles fs)) ! k);
            st = startTimes (includesOut (buildDashboard fs) ! k)
        in length st = length incs \<and>
           (\<forall>n<length incs.
              st ! n = roundMs (startTime (incs ! n)) -
                       (if n = 0 then 0 else roundMs (startTime (incs ! (n - 1))))) \<and>
           runningSum 0 st = map (\<lambda>inc. roundMs (startTime inc)) incs \<and>
           durations (includesOut (buildDashboard fs) ! k)
             = map (\<lambda>inc. roundMs (duration inc)) incs"
    unfolding Let_def includesOut_nth[OF k]
    by (simp add: startTimes_encodeLoop_length startTimes_encodeLoop_nth
        startTimes_encodeLoop_runningSum durations_encodeLoop)
  show "- 500 \<le> x - 1000 * roundMs x" "x - 1000 * roundMs x < 500"
    using roundMs_nearest[of x] by simp_all
  show "roundMs 1499 = 1" "roundMs 1500 = 2"
    by (simp_all add: roundMs_def)
  show "map startTimes (includesOut (buildDashboard [(''unit'', trace_ms)]))
          = [[100, 150, 150]]"
    by (simp add: trace_ms_def dashboard_eval
        upt_rec[of 0] upt_rec[of 1] upt_rec[of 2] upt_rec[of 3])
qed

theorem start_times_delta_encoded_witness:
  "(0::nat) < length (includesOut (buildDashboard [(''unit'', trace_ms)])) \<and>
   startTimes (includesOut (buildDashboard [(''unit'', trace_ms)]) ! 0) = [100, 150, 150] \<and>
   runningSum 0 (startTimes (includesOut (buildDashboard [(''unit'', trace_ms)]) ! 0))
     = [100, 250, 400]"
proof -
  have len: "(0::nat) < length (includesOut (buildDashboard [(''unit'', trace_ms)]))"
    by (simp add: trace_ms_def dashboard_eval
        upt_rec[of 0] upt_rec[of 1] upt_rec[of 2] upt_rec[of 3])
  from start_times_delta_encoded[OF len, of 0] len show ?thesis
    by (simp add: trace_ms_def dashboard_eval
        upt_rec[of 0] upt_rec[of 1] upt_rec[of 2] upt_rec[of 3])
qed

subsection \<open>The files dictionary\<close>

text \<open>Every mention of a file that the counting loop sees, in order.\<close>

definition mentions :: "includeRec list \<Rightarrow> string list" where
  "mentions incs =
     concat (map (\<lambda>inc. if truthy (parentFile inc)
                         then [filePath inc, strOf (parentFile inc)]
                         else [filePath inc]) incs)"

definition countOf :: "(string \<times> nat) list \<Rightarrow> string \<Rightarrow> nat" where
  "countOf m f = (case map_of m f of None \<Rightarrow> 0 | Some c \<Rightarrow> c)"

lemma bump_keys: "fst ` set (bump m f) = insert f (fst ` set m)"
  by (induction m f rule: bump.induct) auto

lemma bump_distinct: "distinct (map fst m) \<Longrightarrow> distinct (map fst (bump m f))"
proof (induction m f rule: bump.induct)
  case (1 f)
  show ?case by simp
next
  case (2 g c m f)
  show ?case
  proof (cases "g = f")
    case True
    with "2.prems" show ?thesis by simp
  next
    case False
    with "2.prems" "2.IH" have "distinct (map fst (bump m f))" by simp
    moreover from False "2.prems" have "g \<notin> fst ` set (bump m f)"
      unfolding bump_keys by auto
    ultimately show ?thesis using False by simp
  qed
qed

lemma bump_countOf: "countOf (bump m f) g = countOf m g + (if g = f then 1 else 0)"
  by (induction m f rule: bump.induct) (auto simp: countOf_def)

lemma mentions_Cons:
  "mentions (inc # incs) =
     (if truthy (parentFile inc) then [filePath inc, strOf (parentFile inc)]
      else [filePath inc]) @ mentions incs"
  by (simp add: mentions_def)

lemma countIncludes_keys:
  "fst ` set (countIncludes m incs) = fst ` set m \<union> set (mentions incs)"
proof (induction incs arbitrary: m)
  case Nil
  show ?case by (simp add: mentions_def)
next
  case (Cons inc incs)
  show ?case
    unfolding countIncludes.simps Cons.IH mentions_Cons
    by (cases "truthy (parentFile inc)") (simp_all add: bump_keys insert_commute)
qed

lemma countIncludes_distinct:
  "distinct (map fst m) \<Longrightarrow> distinct (map fst (countIncludes m incs))"
proof (induction incs arbitrary: m)
  case Nil
  then show ?case by simp
next
  case (Cons inc incs)
  show ?case
    unfolding countIncludes.simps
    by (rule Cons.IH) (simp add: bump_distinct Cons.prems)
qed

lemma countIncludes_countOf:
  "countOf (countIncludes m incs) g = countOf m g + count_list (mentions incs) g"
proof (induction incs arbitrary: m)
  case Nil
  show ?case by (simp add: mentions_def)
next
  case (Cons inc incs)
  show ?case
    unfolding countIncludes.simps Cons.IH mentions_Cons
    by (cases "truthy (parentFile inc)") (simp_all add: bump_countOf)
qed

lemma countIncludes_append:
  "countIncludes m (a @ b) = countIncludes (countIncludes m a) b"
  by (induction a arbitrary: m) auto

lemma mentions_append: "mentions (a @ b) = mentions a @ mentions b"
  by (simp add: mentions_def)

definition allIncludes :: "cuData list \<Rightarrow> includeRec list" where
  "allIncludes cus = concat (map cuIncludes cus)"

lemma processFile_counts:
  assumes "snd st = countIncludes [] (allIncludes (fst st))"
  shows "snd (processFile st f) = countIncludes [] (allIncludes (fst (processFile st f)))"
  using assms by (simp add: processFile_def Let_def allIncludes_def countIncludes_append)

lemma foldl_processFile_counts:
  assumes "snd st = countIncludes [] (allIncludes (fst st))"
  shows "snd (foldl processFile st fs) =
           countIncludes [] (allIncludes (fst (foldl processFile st fs)))"
  using assms
proof (induction fs arbitrary: st)
  case Nil
  then show ?case by simp
next
  case (Cons f fs)
  show ?case
    unfolding foldl_Cons by (rule Cons.IH) (rule processFile_counts[OF Cons.prems])
qed

lemma processFiles_counts:
  "snd (processFiles fs) = countIncludes [] (allIncludes (fst (processFiles fs)))"
  unfolding processFiles_def by (rule foldl_processFile_counts) (simp add: allIncludes_def)

lemma filesArrayOf_set: "set (filesArrayOf m) = set (map fst m)"
  by (simp add: filesArrayOf_def)

lemma filesArrayOf_distinct: "distinct (map fst m) \<Longrightarrow> distinct (filesArrayOf m)"
proof -
  assume d: "distinct (map fst m)"
  have "mset (map fst (sort_key (\<lambda>e. - int (snd e)) m)) = mset (map fst m)"
    by simp
  then show ?thesis
    unfolding filesArrayOf_def using d by (metis mset_eq_imp_distinct_iff)
qed


lemma sorted_desc_counts:
  assumes "i \<le> j" "j < length m"
  shows "snd (sort_key (\<lambda>e. - int (snd e)) m ! j) \<le> snd (sort_key (\<lambda>e. - int (snd e)) m ! i)"
proof -
  let ?s = "sort_key (\<lambda>e. - int (snd e)) m"
  have "sorted (map (\<lambda>e. - int (snd e)) ?s)" by (rule sorted_sort_key)
  moreover from assms have "j < length (map (\<lambda>e. - int (snd e)) ?s)" by simp
  ultimately have "map (\<lambda>e. - int (snd e)) ?s ! i \<le> map (\<lambda>e. - int (snd e)) ?s ! j"
    using assms(1) by (simp only: sorted_iff_nth_mono)
  with assms show ?thesis by simp
qed

lemma countOf_distinct:
  "distinct (map fst m) \<Longrightarrow> e \<in> set m \<Longrightarrow> countOf m (fst e) = snd e"
  by (cases e) (simp add: countOf_def)

lemma filesArrayOf_counts:
  assumes "distinct (map fst m)" "i \<le> j" "j < length (filesArrayOf m)"
  shows "countOf m (filesArrayOf m ! j) \<le> countOf m (filesArrayOf m ! i)"
proof -
  let ?s = "sort_key (\<lambda>e. - int (snd e)) m"
  from assms have j: "j < length m" and i: "i < length m"
    by (simp_all add: filesArrayOf_def)
  have mem: "\<And>k. k < length m \<Longrightarrow> ?s ! k \<in> set m"
    by (metis length_sort nth_mem set_sort)
  have "\<And>k. k < length m \<Longrightarrow> countOf m (filesArrayOf m ! k) = snd (?s ! k)"
    using countOf_distinct[OF assms(1) mem] by (simp add: filesArrayOf_def)
  with i j sorted_desc_counts[OF assms(2) j] show ?thesis by simp
qed

text \<open>The include records of a whole run, unit after unit in input order.\<close>

definition runIncludes :: "(string \<times> event list) list \<Rightarrow> includeRec list" where
  "runIncludes fs =
     concat (map (\<lambda>f. sort_key startTime
                         (buildIncludeHierarchy (extractSourceMarkers_dashboard (snd f)))) fs)"

lemma processFile_includes:
  "allIncludes (fst (processFile st f)) =
     allIncludes (fst st) @
     sort_key startTime (buildIncludeHierarchy (extractSourceMarkers_dashboard (snd f)))"
  by (simp add: processFile_def Let_def allIncludes_def buildIncludeHierarchy_def)

lemma foldl_processFile_includes:
  "allIncludes (fst (foldl processFile st fs)) = allIncludes (fst st) @ runIncludes fs"
proof (induction fs arbitrary: st)
  case Nil
  show ?case by (simp add: runIncludes_def)
next
  case (Cons f fs)
  show ?case
    unfolding foldl_Cons Cons.IH processFile_includes by (simp add: runIncludes_def)
qed

lemma processFiles_includes: "allIncludes (fst (processFiles fs)) = runIncludes fs"
  unfolding processFiles_def foldl_processFile_includes by (simp add: allIncludes_def)

lemma isBegin_detail: "isBegin b \<Longrightarrow> detailOf b \<noteq> []"
  by (auto simp: isBegin_def detailOf_def split: option.splits)

lemma matchBegins_files:
  "\<forall>b\<in>set bs. isBegin b \<Longrightarrow> \<forall>i\<in>set (matchBegins m bs). filePath i \<noteq> []"
proof (induction bs arbitrary: m)
  case Nil
  show ?case by simp
next
  case (Cons b bs)
  from Cons.prems have rest: "\<forall>b\<in>set bs. isBegin b" and b: "detailOf b \<noteq> []"
    by (simp_all add: isBegin_detail)
  show ?case
  proof (cases "findIndex (\<lambda>e. ts e > ts b) (pool m (keyOf b))")
    case None
    with Cons.IH[OF rest, of m] show ?thesis by simp
  next
    case (Some idx)
    let ?m' = "m(keyOf b \<mapsto> splice1 idx (pool m (keyOf b)))"
    have tl: "\<forall>i\<in>set (matchBegins ?m' bs). filePath i \<noteq> []"
      by (rule Cons.IH[OF rest])
    have eq: "matchBegins m (b # bs) =
        \<lparr>filePath = detailOf b, startTime = ts b, endTime = ts (pool m (keyOf b) ! idx),
         duration = ts (pool m (keyOf b) ! idx) - ts b\<rparr> # matchBegins ?m' bs"
      using Some by (simp add: Let_def)
    show ?thesis
      unfolding eq using b tl by (simp del: fun_upd_apply)
  qed
qed

lemma matchEvents_files: "i \<in> set (matchEvents events) \<Longrightarrow> filePath i \<noteq> []"
  using matchBegins_files[of "filter isBegin (filter isSource events)"]
  unfolding matchEvents_def Let_def by auto

lemma includeAt_parentFile:
  assumes "\<forall>x\<in>set xs. filePath x \<noteq> []"
  shows "parentFile (includeAt xs i) \<noteq> Some []"
proof (cases "immediateParent xs i")
  case None
  then show ?thesis by (simp add: includeAt_def)
next
  case (Some p)
  from immediateParent_Some[OF Some] have "xs ! p \<in> set xs" by simp
  with assms Some show ?thesis by (simp add: includeAt_def)
qed

lemma runIncludes_parentFile: "inc \<in> set (runIncludes fs) \<Longrightarrow> parentFile inc \<noteq> Some []"
  using includeAt_parentFile matchEvents_files
  by (auto simp: runIncludes_def buildIncludeHierarchy_def extractSourceMarkers_dashboard_def)

text \<open>How often a file occurs in a run: as an interval's own file or as the file of an
  interval's nearest parent.\<close>

definition usage :: "includeRec list \<Rightarrow> string \<Rightarrow> nat" where
  "usage incs f = count_list (map filePath incs) f + count_list (map parentFile incs) (Some f)"

lemma mentions_set:
  assumes "\<forall>inc\<in>set incs. parentFile inc \<noteq> Some []"
  shows "set (mentions incs) =
           filePath ` set incs \<union> {f. \<exists>inc\<in>set incs. parentFile inc = Some f}"
  using assms
proof (induction incs)
  case Nil
  show ?case by (simp add: mentions_def)
next
  case (Cons inc incs)
  then have ih: "set (mentions incs) =
           filePath ` set incs \<union> {f. \<exists>inc\<in>set incs. parentFile inc = Some f}"
    by simp
  from Cons.prems have "parentFile inc \<noteq> Some []" by simp
  then show ?case
    unfolding mentions_Cons using ih
    by (cases "parentFile inc") (auto simp: truthy_def strOf_def)
qed

lemma mentions_count:
  assumes "\<forall>inc\<in>set incs. parentFile inc \<noteq> Some []"
  shows "count_list (mentions incs) f = usage incs f"
  using assms
proof (induction incs)
  case Nil
  show ?case by (simp add: mentions_def usage_def)
next
  case (Cons inc incs)
  then have ih: "count_list (mentions incs) f = usage incs f"
    by simp
  from Cons.prems have "parentFile inc \<noteq> Some []" by simp
  then show ?case
    unfolding mentions_Cons using ih
    by (cases "parentFile inc") (auto simp: truthy_def strOf_def usage_def)
qed

text \<open>
  Claim C8. In every dashboard run the files dictionary lists each file path exactly once,
  and its entries are exactly the paths that occur as an interval's own file or as the
  file of an interval's nearest parent; the usage counts (\<open>usage\<close>: occurrences as own file
  plus occurrences as parent file) do not increase along the dictionary, so the most used
  file has the smallest id.
\<close>

theorem files_dictionary:
  "distinct (files (buildDashboard fs)) \<and>
   set (files (buildDashboard fs)) =
     filePath ` set (runIncludes fs) \<union>
     {f. \<exists>inc\<in>set (runIncludes fs). parentFile inc = Some f} \<and>
   (\<forall>i j. i \<le> j \<and> j < length (files (buildDashboard fs)) \<longrightarrow>
      usage (runIncludes fs) (files (buildDashboard fs) ! j)
        \<le> usage (runIncludes fs) (files (buildDashboard fs) ! i))"
proof -
  let ?m = "snd (processFiles fs)"
  have files: "files (buildDashboard fs) = filesArrayOf ?m"
    by (simp add: buildDashboard_def Let_def)
  have m: "?m = countIncludes [] (runIncludes fs)"
    using processFiles_counts[of fs] by (simp add: processFiles_includes)
  have wf: "\<forall>inc\<in>set (runIncludes fs). parentFile inc \<noteq> Some []"
    using runIncludes_parentFile by blast
  have dist: "distinct (map fst ?m)"
    unfolding m by (rule countIncludes_distinct) simp
  have cnt: "\<And>f. countOf ?m f = usage (runIncludes fs) f"
    unfolding m countIncludes_countOf mentions_count[OF wf] by (simp add: countOf_def)
  have "distinct (files (buildDashboard fs))"
    unfolding files by (rule filesArrayOf_distinct[OF dist])
  moreover have "set (files (buildDashboard fs)) =
     filePath ` set (runIncludes fs) \<union>
     {f. \<exists>inc\<in>set (runIncludes fs). parentFile inc = Some f}"
    unfolding files filesArrayOf_set
    using countIncludes_keys[of "[]" "runIncludes fs"] mentions_set[OF wf]
    by (simp add: m)
  moreover have "\<forall>i j. i \<le> j \<and> j < length (files (buildDashboard fs)) \<longrightarrow>
      usage (runIncludes fs) (files (buildDashboard fs) ! j)
        \<le> usage (runIncludes fs) (files (buildDashboard fs) ! i)"
    unfolding files using filesArrayOf_counts[OF dist] by (simp add: cnt)
  ultimately show ?thesis by blast
qed


text \<open>A unit with a header \<open>x.h\<close> followed by \<open>a.h\<close>, which includes \<open>b.h\<close> and \<open>c.h\<close>.\<close>

definition trace_nested :: "event list" where
  "trace_nested =
     mkPair 1 0 10000 ''x.h'' @ mkPair 2 20000 100000 ''a.h'' @
     mkPair 3 30000 40000 ''b.h'' @ mkPair 4 50000 60000 ''c.h''"

theorem files_dictionary_witness:
  "files (buildDashboard [(''unit'', trace_nested)]) = [''a.h'', ''x.h'', ''b.h'', ''c.h''] \<and>
   map (usage (runIncludes [(''unit'', trace_nested)]))
     (files (buildDashboard [(''unit'', trace_nested)])) = [3, 1, 1, 1]"
  using files_dictionary[of "[(''unit'', trace_nested)]"]
  by (simp add: trace_nested_def dashboard_eval runIncludes_def usage_def
      upt_rec[of 0] upt_rec[of 1] upt_rec[of 2] upt_rec[of 3] upt_rec[of 4])

section \<open>The merger of the profiler converter\<close>





subsection \<open>The running offset, as the specification words it and as the loop keeps it\<close>

















section \<open>The deduplicated tables of the profile serializer\<close>

text \<open>
  The tables and caches that \<^verbatim>\<open>convertToProfiler\<close> creates for one run and that its three
  local functions share. Of the function table only the column \<^verbatim>\<open>name\<close> is kept
  (\<^verbatim>\<open>fileName\<close> is the same value, the other columns are constants), of the frame table
  only \<^verbatim>\<open>func\<close>. Each table's \<^verbatim>\<open>length\<close> is a counter of its own in the source. The key of
  \<^verbatim>\<open>stackCache\<close> is the string \<^verbatim>\<open>`${frameIndex}-${prefixStack !== null ? prefixStack : 'null'}`\<close>;
  both parts are table indices and the rendering is injective, so the key is the pair.
\<close>

record tables =
  stringTable :: "string list"
  stringMap :: "string \<rightharpoonup> nat"
  funcName :: "nat list"
  funcLength :: nat
  frameFunc :: "nat list"
  frameLength :: nat
  stackFrame :: "nat list"
  stackPrefix :: "nat option list"
  stackLength :: nat
  funcCache :: "string \<rightharpoonup> nat"
  frameCache :: "string \<rightharpoonup> nat"
  stackCache :: "nat \<times> nat option \<rightharpoonup> nat"

definition initTables :: tables where
  "initTables =
     \<lparr>stringTable = [''''], stringMap = [[] \<mapsto> 0],
      funcName = [], funcLength = 0, frameFunc = [], frameLength = 0,
      stackFrame = [], stackPrefix = [], stackLength = 0,
      funcCache = Map.empty, frameCache = Map.empty, stackCache = Map.empty\<rparr>"

definition addString :: "string \<Rightarrow> tables \<Rightarrow> nat \<times> tables" where
  "addString str s =
     (case stringMap s str of
        Some i \<Rightarrow> (i, s)
      | None \<Rightarrow>
          (let index = length (stringTable s)
           in (index, s\<lparr>stringTable := stringTable s @ [str],
                         stringMap := (stringMap s)(str \<mapsto> index)\<rparr>)))"

definition getOrCreateFunc :: "string \<Rightarrow> tables \<Rightarrow> nat \<times> tables" where
  "getOrCreateFunc nm s =
     (case funcCache s nm of
        Some i \<Rightarrow> (i, s)
      | None \<Rightarrow>
          (let funcIndex = funcLength s;
               (nameIndex, s1) = addString nm s
           in (funcIndex, s1\<lparr>funcName := funcName s1 @ [nameIndex],
                             funcLength := funcLength s1 + 1,
                             funcCache := (funcCache s1)(nm \<mapsto> funcIndex)\<rparr>)))"

definition getOrCreateFrame :: "string \<Rightarrow> tables \<Rightarrow> nat \<times> tables" where
  "getOrCreateFrame nm s =
     (case frameCache s nm of
        Some i \<Rightarrow> (i, s)
      | None \<Rightarrow>
          (let (funcIndex, s1) = getOrCreateFunc nm s;
               frameIndex = frameLength s1
           in (frameIndex, s1\<lparr>frameFunc := frameFunc s1 @ [funcIndex],
                              frameLength := frameLength s1 + 1,
                              frameCache := (frameCache s1)(nm \<mapsto> frameIndex)\<rparr>)))"

definition getOrCreateStack :: "nat \<Rightarrow> nat option \<Rightarrow> tables \<Rightarrow> nat \<times> tables" where
  "getOrCreateStack frameIndex prefixStack s =
     (case stackCache s (frameIndex, prefixStack) of
        Some i \<Rightarrow> (i, s)
      | None \<Rightarrow>
          (let stackIndex = stackLength s
           in (stackIndex, s\<lparr>stackFrame := stackFrame s @ [frameIndex],
                              stackPrefix := stackPrefix s @ [prefixStack],
                              stackLength := stackLength s + 1,
                              stackCache := (stackCache s)((frameIndex, prefixStack) \<mapsto> stackIndex)\<rparr>)))"

subsection \<open>Sequences of requests\<close>

datatype request = Func string | Frame string | Stack nat "nat option"

fun exec :: "request \<Rightarrow> tables \<Rightarrow> nat \<times> tables" where
  "exec (Func nm) s = getOrCreateFunc nm s"
| "exec (Frame nm) s = getOrCreateFrame nm s"
| "exec (Stack frameIndex prefixStack) s = getOrCreateStack frameIndex prefixStack s"

text \<open>The indices returned by a sequence of requests, in order, and the final tables.\<close>

fun run :: "request list \<Rightarrow> tables \<Rightarrow> nat list \<times> tables" where
  "run [] s = ([], s)"
| "run (r # rs) s =
     (let (v, s1) = exec r s; (vs, s2) = run rs s1 in (v # vs, s2))"

text \<open>The keys a sequence of requests asks of each table. A frame request for a name asks
  the function table for that name too (\<^verbatim>\<open>getOrCreateFrame\<close> calls \<^verbatim>\<open>getOrCreateFunc\<close>).\<close>

fun funcKeys :: "request \<Rightarrow> string set" where
  "funcKeys (Func nm) = {nm}"
| "funcKeys (Frame nm) = {nm}"
| "funcKeys (Stack f p) = {}"

fun frameKeys :: "request \<Rightarrow> string set" where
  "frameKeys (Frame nm) = {nm}"
| "frameKeys r = {}"

fun stackKeys :: "request \<Rightarrow> (nat \<times> nat option) set" where
  "stackKeys (Stack f p) = {(f, p)}"
| "stackKeys r = {}"

subsection \<open>Invariant of the tables\<close>

definition cacheOK :: "('k \<rightharpoonup> nat) \<Rightarrow> nat \<Rightarrow> bool" where
  "cacheOK c n = (finite (dom c) \<and> card (dom c) = n \<and> inj_on c (dom c) \<and>
                  (\<forall>k i. c k = Some i \<longrightarrow> i < n))"

definition tablesOK :: "tables \<Rightarrow> bool" where
  "tablesOK s =
     (funcLength s = length (funcName s) \<and>
      frameLength s = length (frameFunc s) \<and>
      stackLength s = length (stackFrame s) \<and>
      length (stackPrefix s) = length (stackFrame s) \<and>
      (\<forall>str i. stringMap s str = Some i \<longrightarrow>
         i < length (stringTable s) \<and> stringTable s ! i = str) \<and>
      cacheOK (funcCache s) (funcLength s) \<and>
      (\<forall>nm i. funcCache s nm = Some i \<longrightarrow>
         funcName s ! i < length (stringTable s) \<and> stringTable s ! (funcName s ! i) = nm) \<and>
      cacheOK (frameCache s) (frameLength s) \<and>
      (\<forall>nm i. frameCache s nm = Some i \<longrightarrow> funcCache s nm = Some (frameFunc s ! i)) \<and>
      cacheOK (stackCache s) (stackLength s) \<and>
      (\<forall>k i. stackCache s k = Some i \<longrightarrow> (stackFrame s ! i, stackPrefix s ! i) = k))"

lemma cacheOK_empty: "cacheOK Map.empty 0"
  by (simp add: cacheOK_def)

lemma cacheOK_insert:
  assumes "cacheOK c n" "c k = None"
  shows "cacheOK (c(k \<mapsto> n)) (Suc n)"
proof -
  from assms have fin: "finite (dom c)" and card: "card (dom c) = n"
    and inj: "inj_on c (dom c)" and lt: "\<And>k i. c k = Some i \<Longrightarrow> i < n"
    by (auto simp: cacheOK_def)
  from assms(2) have notin: "k \<notin> dom c" by (simp add: domIff)
  have "card (dom (c(k \<mapsto> n))) = Suc n"
    using fin card notin by simp
  moreover have "inj_on (c(k \<mapsto> n)) (dom (c(k \<mapsto> n)))"
  proof (rule inj_onI)
    fix x y
    assume x: "x \<in> dom (c(k \<mapsto> n))" and y: "y \<in> dom (c(k \<mapsto> n))"
      and eq: "(c(k \<mapsto> n)) x = (c(k \<mapsto> n)) y"
    show "x = y"
    proof (cases "x = k")
      case True
      show ?thesis
      proof (rule ccontr)
        assume "x \<noteq> y"
        with True eq have "c y = Some n" by (simp split: if_splits)
        from lt[OF this] show False by simp
      qed
    next
      case False
      show ?thesis
      proof (cases "y = k")
        case True
        with False eq have "c x = Some n" by (simp split: if_splits)
        from lt[OF this] show ?thesis by simp
      next
        case yk: False
        with False eq x y inj show ?thesis
          by (auto simp: inj_on_def dom_def)
      qed
    qed
  qed
  moreover have "\<forall>k' i. (c(k \<mapsto> n)) k' = Some i \<longrightarrow> i < Suc n"
    using lt by (auto simp: less_Suc_eq)
  ultimately show ?thesis
    using fin by (simp add: cacheOK_def)
qed

lemma cacheOK_lt: "cacheOK c n \<Longrightarrow> c k = Some i \<Longrightarrow> i < n"
  by (simp add: cacheOK_def)

lemma cacheOK_surj:
  assumes "cacheOK c n" "i < n"
  shows "\<exists>k. c k = Some i"
proof -
  from assms(1) have fin: "finite (dom c)" and card: "card (dom c) = n"
    and inj: "inj_on c (dom c)" and lt: "\<And>k i. c k = Some i \<Longrightarrow> i < n"
    by (auto simp: cacheOK_def)
  let ?f = "\<lambda>k. the (c k)"
  have injf: "inj_on ?f (dom c)"
    using inj by (auto simp: inj_on_def dom_def)
  have sub: "?f ` dom c \<subseteq> {..<n}"
    using lt by (auto simp: dom_def)
  have "card (?f ` dom c) = n"
    using card card_image[OF injf] by simp
  with sub have "?f ` dom c = {..<n}"
    by (intro card_subset_eq) simp_all
  with assms(2) have "i \<in> ?f ` dom c" by simp
  then obtain k where "k \<in> dom c" "?f k = i" by blast
  then show ?thesis by (auto simp: dom_def)
qed


lemma tablesOK_D:
  assumes "tablesOK s"
  shows "funcLength s = length (funcName s)"
    and "frameLength s = length (frameFunc s)"
    and "stackLength s = length (stackFrame s)"
    and "length (stackPrefix s) = length (stackFrame s)"
    and "\<And>str i. stringMap s str = Some i \<Longrightarrow>
           i < length (stringTable s) \<and> stringTable s ! i = str"
    and "cacheOK (funcCache s) (funcLength s)"
    and "\<And>nm i. funcCache s nm = Some i \<Longrightarrow>
           funcName s ! i < length (stringTable s) \<and> stringTable s ! (funcName s ! i) = nm"
    and "cacheOK (frameCache s) (frameLength s)"
    and "\<And>nm i. frameCache s nm = Some i \<Longrightarrow> funcCache s nm = Some (frameFunc s ! i)"
    and "cacheOK (stackCache s) (stackLength s)"
    and "\<And>k i. stackCache s k = Some i \<Longrightarrow> (stackFrame s ! i, stackPrefix s ! i) = k"
  using assms unfolding tablesOK_def by blast+

lemma tablesOK_I:
  assumes "funcLength s = length (funcName s)"
    and "frameLength s = length (frameFunc s)"
    and "stackLength s = length (stackFrame s)"
    and "length (stackPrefix s) = length (stackFrame s)"
    and "\<And>str i. stringMap s str = Some i \<Longrightarrow>
           i < length (stringTable s) \<and> stringTable s ! i = str"
    and "cacheOK (funcCache s) (funcLength s)"
    and "\<And>nm i. funcCache s nm = Some i \<Longrightarrow>
           funcName s ! i < length (stringTable s) \<and> stringTable s ! (funcName s ! i) = nm"
    and "cacheOK (frameCache s) (frameLength s)"
    and "\<And>nm i. frameCache s nm = Some i \<Longrightarrow> funcCache s nm = Some (frameFunc s ! i)"
    and "cacheOK (stackCache s) (stackLength s)"
    and "\<And>k i. stackCache s k = Some i \<Longrightarrow> (stackFrame s ! i, stackPrefix s ! i) = k"
  shows "tablesOK s"
  unfolding tablesOK_def using assms by blast

lemma tablesOK_init: "tablesOK initTables"
  by (rule tablesOK_I) (auto simp: initTables_def cacheOK_empty split: if_splits)

lemma addString_OK:
  assumes "tablesOK s" "addString str s = (i, s1)"
  shows "tablesOK s1 \<and> i < length (stringTable s1) \<and> stringTable s1 ! i = str \<and>
         funcName s1 = funcName s \<and> funcLength s1 = funcLength s \<and>
         frameFunc s1 = frameFunc s \<and> frameLength s1 = frameLength s \<and>
         stackFrame s1 = stackFrame s \<and> stackPrefix s1 = stackPrefix s \<and>
         stackLength s1 = stackLength s \<and>
         funcCache s1 = funcCache s \<and> frameCache s1 = frameCache s \<and>
         stackCache s1 = stackCache s"
proof (cases "stringMap s str")
  case None
  with assms(2) have s1: "s1 = s\<lparr>stringTable := stringTable s @ [str],
      stringMap := (stringMap s)(str \<mapsto> length (stringTable s))\<rparr>"
    and i: "i = length (stringTable s)"
    by (auto simp: addString_def Let_def)
  note d = tablesOK_D[OF assms(1)]
  have "tablesOK s1"
  proof (rule tablesOK_I)
    fix str' j
    assume "stringMap s1 str' = Some j"
    then show "j < length (stringTable s1) \<and> stringTable s1 ! j = str'"
      unfolding s1 using d(5)[of str' j]
      by (auto simp: nth_append split: if_splits)
  next
    fix nm j
    assume "funcCache s1 nm = Some j"
    then have "funcCache s nm = Some j" by (simp add: s1)
    from d(7)[OF this] show "funcName s1 ! j < length (stringTable s1) \<and>
        stringTable s1 ! (funcName s1 ! j) = nm"
      by (simp add: s1 nth_append)
  qed (use d in \<open>simp_all add: s1\<close>)
  then show ?thesis by (simp add: s1 i)
next
  case (Some j)
  with assms(2) have "s1 = s" "i = j" by (simp_all add: addString_def)
  with assms(1) tablesOK_D(5)[OF assms(1) Some] show ?thesis by simp
qed

lemma getOrCreateFunc_hit:
  "funcCache s nm = Some i \<Longrightarrow> getOrCreateFunc nm s = (i, s)"
  by (simp add: getOrCreateFunc_def)

lemma getOrCreateFunc_miss:
  assumes "tablesOK s" "funcCache s nm = None" "getOrCreateFunc nm s = (i, s')"
  shows "tablesOK s' \<and> i = funcLength s \<and> funcCache s' = (funcCache s)(nm \<mapsto> i) \<and>
         frameFunc s' = frameFunc s \<and> frameLength s' = frameLength s \<and>
         stackFrame s' = stackFrame s \<and> stackPrefix s' = stackPrefix s \<and>
         stackLength s' = stackLength s \<and>
         frameCache s' = frameCache s \<and> stackCache s' = stackCache s"
proof -
  obtain nameIndex s1 where a: "addString nm s = (nameIndex, s1)"
    by (cases "addString nm s")
  from addString_OK[OF assms(1) a]
  have ok1: "tablesOK s1" and ni: "nameIndex < length (stringTable s1)"
    "stringTable s1 ! nameIndex = nm"
    and same: "funcName s1 = funcName s" "funcLength s1 = funcLength s"
      "frameFunc s1 = frameFunc s" "frameLength s1 = frameLength s"
      "stackFrame s1 = stackFrame s" "stackPrefix s1 = stackPrefix s"
      "stackLength s1 = stackLength s" "funcCache s1 = funcCache s"
      "frameCache s1 = frameCache s" "stackCache s1 = stackCache s"
    by simp_all
  from assms(2,3) a same have s': "s' = s1\<lparr>funcName := funcName s1 @ [nameIndex],
        funcLength := funcLength s1 + 1,
        funcCache := (funcCache s1)(nm \<mapsto> funcLength s1)\<rparr>"
    and i: "i = funcLength s1"
    by (auto simp: getOrCreateFunc_def Let_def)
  from assms(2) same have none: "funcCache s1 nm = None" by simp
  note d = tablesOK_D[OF ok1]
  have "tablesOK s'"
  proof (rule tablesOK_I)
    show "cacheOK (funcCache s') (funcLength s')"
      using cacheOK_insert[OF d(6) none] by (simp add: s')
  next
    fix n j
    assume h: "funcCache s' n = Some j"
    show "funcName s' ! j < length (stringTable s') \<and> stringTable s' ! (funcName s' ! j) = n"
    proof (cases "n = nm")
      case True
      with h have "j = length (funcName s1)" using d(1) by (simp add: s')
      with True ni show ?thesis by (simp add: s')
    next
      case False
      with h have old: "funcCache s1 n = Some j" by (simp add: s')
      from cacheOK_lt[OF d(6) old] d(1) have "j < length (funcName s1)" by simp
      with d(7)[OF old] show ?thesis by (simp add: s' nth_append)
    qed
  next
    fix n j
    assume "frameCache s' n = Some j"
    then have h: "frameCache s1 n = Some j" by (simp add: s')
    from d(9)[OF h] none have "n \<noteq> nm" by auto
    with d(9)[OF h] show "funcCache s' n = Some (frameFunc s' ! j)"
      by (simp add: s')
  qed (use d in \<open>simp_all add: s'\<close>)
  with s' i same show ?thesis by simp
qed

lemma getOrCreateFunc_effect:
  assumes "tablesOK s" "getOrCreateFunc nm s = (i, s')"
  shows "tablesOK s' \<and> funcCache s' = (funcCache s)(nm \<mapsto> i) \<and>
         (\<forall>j. funcCache s nm = Some j \<longrightarrow> j = i) \<and>
         frameFunc s' = frameFunc s \<and> frameLength s' = frameLength s \<and>
         stackFrame s' = stackFrame s \<and> stackPrefix s' = stackPrefix s \<and>
         stackLength s' = stackLength s \<and>
         frameCache s' = frameCache s \<and> stackCache s' = stackCache s"
proof (cases "funcCache s nm")
  case None
  from getOrCreateFunc_miss[OF assms(1) None assms(2)] None show ?thesis by simp
next
  case (Some j)
  from getOrCreateFunc_hit[OF Some] assms(2) have "i = j" "s' = s" by simp_all
  with assms(1) Some show ?thesis by (simp add: fun_upd_idem)
qed


lemma getOrCreateFrame_hit:
  "frameCache s nm = Some i \<Longrightarrow> getOrCreateFrame nm s = (i, s)"
  by (simp add: getOrCreateFrame_def)

lemma getOrCreateFrame_miss:
  assumes "tablesOK s" "frameCache s nm = None" "getOrCreateFrame nm s = (i, s')"
  shows "tablesOK s' \<and> i = frameLength s \<and> frameCache s' = (frameCache s)(nm \<mapsto> i) \<and>
         (\<exists>fi. funcCache s' = (funcCache s)(nm \<mapsto> fi) \<and>
               (\<forall>j. funcCache s nm = Some j \<longrightarrow> j = fi)) \<and>
         stackFrame s' = stackFrame s \<and> stackPrefix s' = stackPrefix s \<and>
         stackLength s' = stackLength s \<and> stackCache s' = stackCache s"
proof -
  obtain funcIndex s1 where a: "getOrCreateFunc nm s = (funcIndex, s1)"
    by (cases "getOrCreateFunc nm s")
  from getOrCreateFunc_effect[OF assms(1) a]
  have ok1: "tablesOK s1" and fc: "funcCache s1 = (funcCache s)(nm \<mapsto> funcIndex)"
    and hit: "\<forall>j. funcCache s nm = Some j \<longrightarrow> j = funcIndex"
    and same: "frameFunc s1 = frameFunc s" "frameLength s1 = frameLength s"
      "stackFrame s1 = stackFrame s" "stackPrefix s1 = stackPrefix s"
      "stackLength s1 = stackLength s" "frameCache s1 = frameCache s"
      "stackCache s1 = stackCache s"
    by simp_all
  from assms(2,3) a same have s': "s' = s1\<lparr>frameFunc := frameFunc s1 @ [funcIndex],
        frameLength := frameLength s1 + 1,
        frameCache := (frameCache s1)(nm \<mapsto> frameLength s1)\<rparr>"
    and i: "i = frameLength s1"
    by (auto simp: getOrCreateFrame_def Let_def)
  from assms(2) same have none: "frameCache s1 nm = None" by simp
  note d = tablesOK_D[OF ok1]
  have "tablesOK s'"
  proof (rule tablesOK_I)
    show "cacheOK (frameCache s') (frameLength s')"
      using cacheOK_insert[OF d(8) none] by (simp add: s')
  next
    fix n j
    assume h: "frameCache s' n = Some j"
    show "funcCache s' n = Some (frameFunc s' ! j)"
    proof (cases "n = nm")
      case True
      with h have "j = length (frameFunc s1)" using d(2) by (simp add: s')
      with True fc show ?thesis by (simp add: s')
    next
      case False
      with h have old: "frameCache s1 n = Some j" by (simp add: s')
      from cacheOK_lt[OF d(8) old] d(2) have "j < length (frameFunc s1)" by simp
      with d(9)[OF old] show ?thesis by (simp add: s' nth_append)
    qed
  qed (use d in \<open>simp_all add: s'\<close>)
  moreover have "\<exists>fi. funcCache s' = (funcCache s)(nm \<mapsto> fi) \<and>
               (\<forall>j. funcCache s nm = Some j \<longrightarrow> j = fi)"
    using fc hit by (intro exI[of _ funcIndex]) (simp add: s')
  ultimately show ?thesis using s' i same by simp
qed

lemma getOrCreateFrame_effect:
  assumes "tablesOK s" "getOrCreateFrame nm s = (i, s')"
  shows "tablesOK s' \<and> frameCache s' = (frameCache s)(nm \<mapsto> i) \<and>
         (\<forall>j. frameCache s nm = Some j \<longrightarrow> j = i) \<and>
         (\<exists>fi. funcCache s' = (funcCache s)(nm \<mapsto> fi) \<and>
               (\<forall>j. funcCache s nm = Some j \<longrightarrow> j = fi)) \<and>
         stackFrame s' = stackFrame s \<and> stackPrefix s' = stackPrefix s \<and>
         stackLength s' = stackLength s \<and> stackCache s' = stackCache s"
proof (cases "frameCache s nm")
  case None
  from getOrCreateFrame_miss[OF assms(1) None assms(2)] None show ?thesis by simp
next
  case (Some j)
  from getOrCreateFrame_hit[OF Some] assms(2) have e: "i = j" "s' = s" by simp_all
  from tablesOK_D(9)[OF assms(1) Some]
  have "funcCache s = (funcCache s)(nm \<mapsto> frameFunc s ! j) \<and>
        (\<forall>k. funcCache s nm = Some k \<longrightarrow> k = frameFunc s ! j)"
    by (simp add: fun_upd_idem)
  then have "\<exists>fi. funcCache s = (funcCache s)(nm \<mapsto> fi) \<and>
               (\<forall>k. funcCache s nm = Some k \<longrightarrow> k = fi)"
    by blast
  with assms(1) Some e show ?thesis by (simp add: fun_upd_idem)
qed

lemma getOrCreateStack_hit:
  "stackCache s (f, p) = Some i \<Longrightarrow> getOrCreateStack f p s = (i, s)"
  by (simp add: getOrCreateStack_def)

lemma getOrCreateStack_miss:
  assumes "tablesOK s" "stackCache s (f, p) = None" "getOrCreateStack f p s = (i, s')"
  shows "tablesOK s' \<and> i = stackLength s \<and> stackCache s' = (stackCache s)((f, p) \<mapsto> i) \<and>
         funcCache s' = funcCache s \<and> frameCache s' = frameCache s"
proof -
  from assms(2,3) have s': "s' = s\<lparr>stackFrame := stackFrame s @ [f],
        stackPrefix := stackPrefix s @ [p],
        stackLength := stackLength s + 1,
        stackCache := (stackCache s)((f, p) \<mapsto> stackLength s)\<rparr>"
    and i: "i = stackLength s"
    by (auto simp: getOrCreateStack_def Let_def)
  note d = tablesOK_D[OF assms(1)]
  have "tablesOK s'"
  proof (rule tablesOK_I)
    show "cacheOK (stackCache s') (stackLength s')"
      using cacheOK_insert[OF d(10) assms(2)] by (simp add: s')
  next
    fix k j
    assume h: "stackCache s' k = Some j"
    show "(stackFrame s' ! j, stackPrefix s' ! j) = k"
    proof (cases "k = (f, p)")
      case True
      with h have "j = length (stackFrame s)" using d(3) by (simp add: s')
      with True d(4) show ?thesis by (simp add: s' nth_append)
    next
      case False
      with h have old: "stackCache s k = Some j" by (simp add: s')
      from cacheOK_lt[OF d(10) old] d(3) have "j < length (stackFrame s)" by simp
      with d(11)[OF old] d(4) show ?thesis by (simp add: s' nth_append)
    qed
  qed (use d in \<open>simp_all add: s'\<close>)
  with s' i show ?thesis by simp
qed

lemma getOrCreateStack_effect:
  assumes "tablesOK s" "getOrCreateStack f p s = (i, s')"
  shows "tablesOK s' \<and> stackCache s' = (stackCache s)((f, p) \<mapsto> i) \<and>
         (\<forall>j. stackCache s (f, p) = Some j \<longrightarrow> j = i) \<and>
         funcCache s' = funcCache s \<and> frameCache s' = frameCache s"
proof (cases "stackCache s (f, p)")
  case None
  from getOrCreateStack_miss[OF assms(1) None assms(2)] None show ?thesis by simp
next
  case (Some j)
  from getOrCreateStack_hit[OF Some] assms(2) have "i = j" "s' = s" by simp_all
  with assms(1) Some show ?thesis by (simp add: fun_upd_idem)
qed

text \<open>What the cache of the table holds for the key of a request.\<close>

fun cached :: "request \<Rightarrow> tables \<Rightarrow> nat option" where
  "cached (Func nm) s = funcCache s nm"
| "cached (Frame nm) s = frameCache s nm"
| "cached (Stack f p) s = stackCache s (f, p)"

lemma exec_OK:
  assumes "tablesOK s" "exec r s = (v, s')"
  shows "tablesOK s'"
proof (cases r)
  case (Func nm)
  with assms(2) have "getOrCreateFunc nm s = (v, s')" by simp
  from getOrCreateFunc_effect[OF assms(1) this] show ?thesis by blast
next
  case (Frame nm)
  with assms(2) have "getOrCreateFrame nm s = (v, s')" by simp
  from getOrCreateFrame_effect[OF assms(1) this] show ?thesis by blast
next
  case (Stack f p)
  with assms(2) have "getOrCreateStack f p s = (v, s')" by simp
  from getOrCreateStack_effect[OF assms(1) this] show ?thesis by blast
qed

lemma exec_caches_result:
  assumes "tablesOK s" "exec r s = (v, s')"
  shows "cached r s' = Some v"
proof (cases r)
  case (Func nm)
  with assms(2) have "getOrCreateFunc nm s = (v, s')" by simp
  from getOrCreateFunc_effect[OF assms(1) this]
  have "funcCache s' = (funcCache s)(nm \<mapsto> v)" by blast
  with Func show ?thesis by simp
next
  case (Frame nm)
  with assms(2) have "getOrCreateFrame nm s = (v, s')" by simp
  from getOrCreateFrame_effect[OF assms(1) this]
  have "frameCache s' = (frameCache s)(nm \<mapsto> v)" by blast
  with Frame show ?thesis by simp
next
  case (Stack f p)
  with assms(2) have "getOrCreateStack f p s = (v, s')" by simp
  from getOrCreateStack_effect[OF assms(1) this]
  have "stackCache s' = (stackCache s)((f, p) \<mapsto> v)" by blast
  with Stack show ?thesis by simp
qed

lemma upd_keeps:
  assumes "c' = c(k \<mapsto> w)" "\<forall>j. c k = Some j \<longrightarrow> j = w" "c q = Some v"
  shows "c' q = Some v"
  using assms by (cases "q = k") simp_all

lemma upd_dom: "c' = c(k \<mapsto> w) \<Longrightarrow> dom c' = dom c \<union> {k}"
  by simp

text \<open>Every cache grows by at most the key asked for, and keeps what it holds.\<close>

lemma exec_caches:
  assumes "tablesOK s" "exec r s = (w, s')"
  shows "(\<forall>k v. funcCache s k = Some v \<longrightarrow> funcCache s' k = Some v) \<and>
         (\<forall>k v. frameCache s k = Some v \<longrightarrow> frameCache s' k = Some v) \<and>
         (\<forall>k v. stackCache s k = Some v \<longrightarrow> stackCache s' k = Some v) \<and>
         dom (funcCache s') = dom (funcCache s) \<union> funcKeys r \<and>
         dom (frameCache s') = dom (frameCache s) \<union> frameKeys r \<and>
         dom (stackCache s') = dom (stackCache s) \<union> stackKeys r"
proof (cases r)
  case (Func nm)
  with assms(2) have "getOrCreateFunc nm s = (w, s')" by simp
  from getOrCreateFunc_effect[OF assms(1) this]
  have e: "funcCache s' = (funcCache s)(nm \<mapsto> w)" "\<forall>j. funcCache s nm = Some j \<longrightarrow> j = w"
    "frameCache s' = frameCache s" "stackCache s' = stackCache s"
    by blast+
  have "\<forall>k v. funcCache s k = Some v \<longrightarrow> funcCache s' k = Some v"
    using upd_keeps[OF e(1,2)] by blast
  moreover have "dom (funcCache s') = dom (funcCache s) \<union> funcKeys r"
    using upd_dom[OF e(1)] Func by simp
  ultimately show ?thesis using e(3,4) Func by simp
next
  case (Frame nm)
  with assms(2) have "getOrCreateFrame nm s = (w, s')" by simp
  from getOrCreateFrame_effect[OF assms(1) this]
  obtain fi where e: "frameCache s' = (frameCache s)(nm \<mapsto> w)"
    "\<forall>j. frameCache s nm = Some j \<longrightarrow> j = w"
    "funcCache s' = (funcCache s)(nm \<mapsto> fi)" "\<forall>j. funcCache s nm = Some j \<longrightarrow> j = fi"
    "stackCache s' = stackCache s"
    by blast
  have "\<forall>k v. funcCache s k = Some v \<longrightarrow> funcCache s' k = Some v"
    using upd_keeps[OF e(3,4)] by blast
  moreover have "\<forall>k v. frameCache s k = Some v \<longrightarrow> frameCache s' k = Some v"
    using upd_keeps[OF e(1,2)] by blast
  moreover have "dom (funcCache s') = dom (funcCache s) \<union> funcKeys r"
    using upd_dom[OF e(3)] Frame by simp
  moreover have "dom (frameCache s') = dom (frameCache s) \<union> frameKeys r"
    using upd_dom[OF e(1)] Frame by simp
  ultimately show ?thesis using e(5) Frame by simp
next
  case (Stack f p)
  with assms(2) have "getOrCreateStack f p s = (w, s')" by simp
  from getOrCreateStack_effect[OF assms(1) this]
  have e: "stackCache s' = (stackCache s)((f, p) \<mapsto> w)"
    "\<forall>j. stackCache s (f, p) = Some j \<longrightarrow> j = w"
    "funcCache s' = funcCache s" "frameCache s' = frameCache s"
    by blast+
  have "\<forall>k v. stackCache s k = Some v \<longrightarrow> stackCache s' k = Some v"
    using upd_keeps[OF e(1,2)] by blast
  moreover have "dom (stackCache s') = dom (stackCache s) \<union> stackKeys r"
    using upd_dom[OF e(1)] Stack by simp
  ultimately show ?thesis using e(3,4) Stack by simp
qed

lemma exec_keeps_cached:
  assumes "tablesOK s" "exec r s = (w, s')" "cached q s = Some v"
  shows "cached q s' = Some v"
  using exec_caches[OF assms(1,2)] assms(3) by (cases q) simp_all

lemma exec_hit: "cached r s = Some v \<Longrightarrow> exec r s = (v, s)"
  by (cases r)
    (simp_all add: getOrCreateFunc_hit getOrCreateFrame_hit getOrCreateStack_hit)

lemma run_Cons:
  "run (r # rs) s =
     (fst (exec r s) # fst (run rs (snd (exec r s))), snd (run rs (snd (exec r s))))"
  by (simp add: Let_def split: prod.splits)

lemma run_length: "length (fst (run rs s)) = length rs"
  by (induction rs arbitrary: s) (simp_all add: run_Cons del: run.simps(2))

lemma run_OK: "tablesOK s \<Longrightarrow> tablesOK (snd (run rs s))"
proof (induction rs arbitrary: s)
  case Nil
  then show ?case by simp
next
  case (Cons r rs)
  have "tablesOK (snd (exec r s))"
    using exec_OK[OF Cons.prems, of r] by (cases "exec r s") simp
  from Cons.IH[OF this] show ?case by (simp add: run_Cons del: run.simps(2))
qed

lemma run_cached:
  assumes "tablesOK s" "cached q s = Some v" "i < length rs" "rs ! i = q"
  shows "fst (run rs s) ! i = v"
  using assms
proof (induction rs arbitrary: s i)
  case Nil
  then show ?case by simp
next
  case (Cons r rs)
  obtain w s1 where e: "exec r s = (w, s1)" by (cases "exec r s")
  have ok1: "tablesOK s1" by (rule exec_OK[OF Cons.prems(1) e])
  have c1: "cached q s1 = Some v" by (rule exec_keeps_cached[OF Cons.prems(1) e Cons.prems(2)])
  show ?case
  proof (cases i)
    case 0
    with Cons.prems(4) have "r = q" by simp
    with exec_hit[OF Cons.prems(2)] e have "w = v" by simp
    with 0 e show ?thesis by (simp add: run_Cons del: run.simps(2))
  next
    case (Suc n)
    with Cons.prems(3,4) have "n < length rs" "rs ! n = q" by simp_all
    from Cons.IH[OF ok1 c1 this] Suc e show ?thesis by (simp add: run_Cons del: run.simps(2))
  qed
qed

lemma run_same:
  assumes "tablesOK s" "i < length rs" "j < length rs" "rs ! i = rs ! j"
  shows "fst (run rs s) ! i = fst (run rs s) ! j"
  using assms
proof (induction rs arbitrary: s i j)
  case Nil
  then show ?case by simp
next
  case (Cons r rs)
  obtain w s1 where e: "exec r s = (w, s1)" by (cases "exec r s")
  have ok1: "tablesOK s1" by (rule exec_OK[OF Cons.prems(1) e])
  have c1: "cached r s1 = Some w" by (rule exec_caches_result[OF Cons.prems(1) e])
  have later: "\<And>n. n < length rs \<Longrightarrow> rs ! n = r \<Longrightarrow> fst (run rs s1) ! n = w"
    by (rule run_cached[OF ok1 c1])
  show ?case
  proof (cases i)
    case i0: 0
    show ?thesis
    proof (cases j)
      case 0
      with i0 show ?thesis by simp
    next
      case (Suc m)
      with Cons.prems(3,4) i0 have "m < length rs" "rs ! m = r" by simp_all
      from later[OF this] i0 Suc e show ?thesis by (simp add: run_Cons del: run.simps(2))
    qed
  next
    case iS: (Suc n)
    show ?thesis
    proof (cases j)
      case 0
      with Cons.prems(2,4) iS have "n < length rs" "rs ! n = r" by simp_all
      from later[OF this] iS 0 e show ?thesis by (simp add: run_Cons del: run.simps(2))
    next
      case (Suc m)
      with Cons.prems(2,3,4) iS have "n < length rs" "m < length rs" "rs ! n = rs ! m"
        by simp_all
      from Cons.IH[OF ok1 this] iS Suc e show ?thesis by (simp add: run_Cons del: run.simps(2))
    qed
  qed
qed

lemma run_dom:
  assumes "tablesOK s"
  shows "dom (funcCache (snd (run rs s))) = dom (funcCache s) \<union> \<Union> (funcKeys ` set rs) \<and>
         dom (frameCache (snd (run rs s))) = dom (frameCache s) \<union> \<Union> (frameKeys ` set rs) \<and>
         dom (stackCache (snd (run rs s))) = dom (stackCache s) \<union> \<Union> (stackKeys ` set rs)"
  using assms
proof (induction rs arbitrary: s)
  case Nil
  show ?case by simp
next
  case (Cons r rs)
  obtain w s1 where e: "exec r s = (w, s1)" by (cases "exec r s")
  have ok1: "tablesOK s1" by (rule exec_OK[OF Cons.prems e])
  from exec_caches[OF Cons.prems e]
  have d: "dom (funcCache s1) = dom (funcCache s) \<union> funcKeys r"
    "dom (frameCache s1) = dom (frameCache s) \<union> frameKeys r"
    "dom (stackCache s1) = dom (stackCache s) \<union> stackKeys r"
    by blast+
  from Cons.IH[OF ok1] show ?case
    unfolding run_Cons e snd_conv d by (simp add: Un_assoc)
qed

lemma cacheOK_card: "cacheOK c n \<Longrightarrow> card (dom c) = n"
  by (simp add: cacheOK_def)

lemma tables_distinct:
  assumes "tablesOK s"
  shows "distinct (funcName s)" and "distinct (frameFunc s)"
    and "distinct (zip (stackFrame s) (stackPrefix s))"
proof -
  note d = tablesOK_D[OF assms]
  show "distinct (funcName s)"
    unfolding distinct_conv_nth
  proof (intro allI impI)
    fix i j
    assume i: "i < length (funcName s)" and j: "j < length (funcName s)" and ne: "i \<noteq> j"
    from cacheOK_surj[OF d(6)] i j d(1)
    obtain a b where a: "funcCache s a = Some i" and b: "funcCache s b = Some j"
      by metis
    show "funcName s ! i \<noteq> funcName s ! j"
    proof
      assume "funcName s ! i = funcName s ! j"
      with d(7)[OF a] d(7)[OF b] have "a = b" by simp
      with a b ne show False by simp
    qed
  qed
  show "distinct (frameFunc s)"
    unfolding distinct_conv_nth
  proof (intro allI impI)
    fix i j
    assume i: "i < length (frameFunc s)" and j: "j < length (frameFunc s)" and ne: "i \<noteq> j"
    from cacheOK_surj[OF d(8)] i j d(2)
    obtain a b where a: "frameCache s a = Some i" and b: "frameCache s b = Some j"
      by metis
    from a b ne have ab: "a \<noteq> b" by auto
    show "frameFunc s ! i \<noteq> frameFunc s ! j"
    proof
      assume "frameFunc s ! i = frameFunc s ! j"
      with d(9)[OF a] d(9)[OF b] have eq: "funcCache s a = funcCache s b" by simp
      from d(6) have "inj_on (funcCache s) (dom (funcCache s))" by (simp add: cacheOK_def)
      moreover from d(9)[OF a] d(9)[OF b] have "a \<in> dom (funcCache s)" "b \<in> dom (funcCache s)"
        by auto
      ultimately have "a = b" using eq by (simp add: inj_on_def)
      with ab show False by simp
    qed
  qed
  show "distinct (zip (stackFrame s) (stackPrefix s))"
    unfolding distinct_conv_nth
  proof (intro allI impI)
    fix i j
    assume i: "i < length (zip (stackFrame s) (stackPrefix s))"
      and j: "j < length (zip (stackFrame s) (stackPrefix s))" and ne: "i \<noteq> j"
    from i j d(3,4) have i': "i < stackLength s" and j': "j < stackLength s" by simp_all
    from cacheOK_surj[OF d(10) i'] cacheOK_surj[OF d(10) j']
    obtain a b where a: "stackCache s a = Some i" and b: "stackCache s b = Some j"
      by blast
    from a b ne have ab: "a \<noteq> b" by auto
    from d(11)[OF a] d(11)[OF b] ab i j
    show "zip (stackFrame s) (stackPrefix s) ! i \<noteq> zip (stackFrame s) (stackPrefix s) ! j"
      by auto
  qed
qed

text \<open>
  Claim C9. Whatever sequence of requests a serialization run makes, two requests for the
  same function name, the same frame name or the same pair of frame index and parent stack
  return the same table index; the length of the function, frame and stack table is at
  most the number of distinct keys asked of it; and no table holds two rows for one key
  (the stack rows, the function name indices and the frame function indices are pairwise
  different).
\<close>

theorem table_dedup:
  "(\<forall>i j. i < length rs \<and> j < length rs \<and> rs ! i = rs ! j \<longrightarrow>
      fst (run rs initTables) ! i = fst (run rs initTables) ! j) \<and>
   funcLength (snd (run rs initTables)) \<le> card (\<Union> (funcKeys ` set rs)) \<and>
   frameLength (snd (run rs initTables)) \<le> card (\<Union> (frameKeys ` set rs)) \<and>
   stackLength (snd (run rs initTables)) \<le> card (\<Union> (stackKeys ` set rs)) \<and>
   length (funcName (snd (run rs initTables))) = funcLength (snd (run rs initTables)) \<and>
   length (frameFunc (snd (run rs initTables))) = frameLength (snd (run rs initTables)) \<and>
   length (stackFrame (snd (run rs initTables))) = stackLength (snd (run rs initTables)) \<and>
   length (stackPrefix (snd (run rs initTables))) = stackLength (snd (run rs initTables)) \<and>
   distinct (funcName (snd (run rs initTables))) \<and>
   distinct (frameFunc (snd (run rs initTables))) \<and>
   distinct (zip (stackFrame (snd (run rs initTables))) (stackPrefix (snd (run rs initTables))))"
proof -
  let ?s = "snd (run rs initTables)"
  have ok: "tablesOK ?s" by (rule run_OK[OF tablesOK_init])
  note d = tablesOK_D[OF ok]
  from run_dom[OF tablesOK_init, of rs]
  have doms: "dom (funcCache ?s) = \<Union> (funcKeys ` set rs)"
    "dom (frameCache ?s) = \<Union> (frameKeys ` set rs)"
    "dom (stackCache ?s) = \<Union> (stackKeys ` set rs)"
    by (simp_all add: initTables_def)
  have "\<forall>i j. i < length rs \<and> j < length rs \<and> rs ! i = rs ! j \<longrightarrow>
      fst (run rs initTables) ! i = fst (run rs initTables) ! j"
    using run_same[OF tablesOK_init] by blast
  moreover have "funcLength ?s \<le> card (\<Union> (funcKeys ` set rs))"
    using cacheOK_card[OF d(6)] doms(1) by simp
  moreover have "frameLength ?s \<le> card (\<Union> (frameKeys ` set rs))"
    using cacheOK_card[OF d(8)] doms(2) by simp
  moreover have "stackLength ?s \<le> card (\<Union> (stackKeys ` set rs))"
    using cacheOK_card[OF d(10)] doms(3) by simp
  ultimately show ?thesis
    using d(1,2,3,4) tables_distinct[OF ok] by simp
qed

definition requests_example :: "request list" where
  "requests_example =
     [Frame ''a.h'', Stack 0 None, Frame ''b.h'', Stack 1 (Some 0),
      Frame ''a.h'', Stack 0 None, Func ''a.h'']"

theorem table_dedup_witness:
  "fst (run requests_example initTables) = [0, 0, 1, 1, 0, 0, 0] \<and>
   funcLength (snd (run requests_example initTables)) = 2 \<and>
   frameLength (snd (run requests_example initTables)) = 2 \<and>
   stackLength (snd (run requests_example initTables)) = 2"
  using table_dedup[of requests_example]
  by (simp add: requests_example_def initTables_def getOrCreateFunc_def getOrCreateFrame_def
      getOrCreateStack_def addString_def Let_def)

end
